theory Spec2Isabelle
  imports Main "HOL-Library.List_Lexorder" "HOL-Library.Char_ord"
begin

section \<open>JavaScript strings\<close>

text \<open>
  A JavaScript string is modelled as a \<^typ>\<open>string\<close> whose characters are the code units
  0..255. \<open>String.prototype.trim\<close> and the regular expression class \<open>\s\<close> use the same
  set of white space and line terminators; in this range these are TAB, LF, VT, FF, CR,
  SPACE and NBSP.
\<close>

definition isWhiteSpace :: "char \<Rightarrow> bool" where
  "isWhiteSpace c = (of_char c \<in> {9, 10, 11, 12, 13, 32, 160 :: nat})"

definition isDigit :: "char \<Rightarrow> bool" where
  "isDigit c = (48 \<le> (of_char c :: nat) \<and> (of_char c :: nat) \<le> 57)"

definition TAB :: char where
  "TAB = CHR 0x09"

definition trim :: "string \<Rightarrow> string" where
  "trim s = rev (dropWhile isWhiteSpace (rev (dropWhile isWhiteSpace s)))"

text \<open>\<open>s.split(c)\<close> for a one-character separator: never the empty array.\<close>

fun splitOn :: "char \<Rightarrow> string \<Rightarrow> string list" where
  "splitOn c [] = [[]]"
| "splitOn c (x # xs) =
     (if x = c then [] # splitOn c xs
      else (case splitOn c xs of [] \<Rightarrow> [[x]] | t # ts \<Rightarrow> (x # t) # ts))"

text \<open>\<open>s.split(/\s+/)\<close>: every maximal run of white space is one separator.\<close>

function splitWs :: "string \<Rightarrow> string list" where
  "splitWs [] = [[]]"
| "splitWs (x # xs) =
     (if isWhiteSpace x then [] # splitWs (dropWhile isWhiteSpace xs)
      else (case splitWs xs of [] \<Rightarrow> [[x]] | t # ts \<Rightarrow> (x # t) # ts))"
  by pat_completeness auto
termination
  by (relation "measure length") (auto simp: length_dropWhile_le le_imp_less_Suc)

text \<open>\<open>text.replace(/\r/g, '\n').split('\n')\<close>\<close>

definition splitLines :: "string \<Rightarrow> string list" where
  "splitLines text =
     splitOn (CHR 0x0A) (map (\<lambda>c. if c = CHR 0x0D then CHR 0x0A else c) text)"

text \<open>\<open>s.replace(/\//g, '-')\<close>\<close>

definition slashesToDashes :: "string \<Rightarrow> string" where
  "slashesToDashes s = map (\<lambda>c. if c = CHR ''/'' then CHR ''-'' else c) s"

definition substr :: "string \<Rightarrow> nat \<Rightarrow> nat \<Rightarrow> string" where
  "substr s i n = take n (drop i s)"

definition allDigits :: "string \<Rightarrow> bool" where
  "allDigits s = list_all isDigit s"

definition digitVal :: "char \<Rightarrow> int" where
  "digitVal c = int (of_char c) - 48"

definition numOf :: "string \<Rightarrow> int" where
  "numOf s = foldl (\<lambda>a c. 10 * a + digitVal c) 0 s"

fun padNum :: "nat \<Rightarrow> nat \<Rightarrow> string" where
  "padNum 0 n = []"
| "padNum (Suc w) n = padNum w (n div 10) @ [char_of (48 + n mod 10)]"

section \<open>The Date built-in\<close>

text \<open>
  \<open>Date\<close> is the ECMAScript built-in (ECMA-262, Date objects), with the validity rules of
  the V8 parser that Node.js runs. A time value is a number of milliseconds since the
  epoch; \<open>None\<close> stands for \<open>NaN\<close>, the time value of an Invalid Date.
\<close>

type_synonym timeval = "int option"

definition msPerDay :: int where
  "msPerDay = 86400000"

definition DayFromYear :: "int \<Rightarrow> int" where
  "DayFromYear y =
     365 * (y - 1970) + (y - 1969) div 4 - (y - 1901) div 100 + (y - 1601) div 400"

definition InLeapYear :: "int \<Rightarrow> bool" where
  "InLeapYear y = ((y mod 4 = 0 \<and> y mod 100 \<noteq> 0) \<or> y mod 400 = 0)"

definition leapDay :: "int \<Rightarrow> int" where
  "leapDay y = (if InLeapYear y then 1 else 0)"

definition Day :: "int \<Rightarrow> int" where
  "Day t = t div msPerDay"

definition TimeWithinDay :: "int \<Rightarrow> int" where
  "TimeWithinDay t = t mod msPerDay"

text \<open>The year of a day number: the largest \<open>y\<close> with \<open>DayFromYear y \<le> d\<close>.\<close>

definition YearFromDay :: "int \<Rightarrow> int" where
  "YearFromDay d =
     (let e = 1970 + (400 * d) div 146097
      in if d < DayFromYear e then e - 1
         else if DayFromYear (e + 1) \<le> d then e + 1
         else e)"

text \<open>First day within the year of month \<open>m\<close> (0-based), for leap-day count \<open>l\<close>.\<close>

definition monthStart :: "int \<Rightarrow> int \<Rightarrow> int" where
  "monthStart l m =
     (if m = 0 then 0 else if m = 1 then 31 else if m = 2 then 59 + l
      else if m = 3 then 90 + l else if m = 4 then 120 + l else if m = 5 then 151 + l
      else if m = 6 then 181 + l else if m = 7 then 212 + l else if m = 8 then 243 + l
      else if m = 9 then 273 + l else if m = 10 then 304 + l else 334 + l)"

definition MonthFromDay :: "int \<Rightarrow> int" where
  "MonthFromDay d =
     (let y = YearFromDay d; l = leapDay y; k = d - DayFromYear y
      in if k < 31 then 0 else if k < 59 + l then 1 else if k < 90 + l then 2
         else if k < 120 + l then 3 else if k < 151 + l then 4 else if k < 181 + l then 5
         else if k < 212 + l then 6 else if k < 243 + l then 7 else if k < 273 + l then 8
         else if k < 304 + l then 9 else if k < 334 + l then 10 else 11)"

definition DateFromDay :: "int \<Rightarrow> int" where
  "DateFromDay d =
     (let y = YearFromDay d
      in d - DayFromYear y - monthStart (leapDay y) (MonthFromDay d) + 1)"

definition MakeTime :: "int \<Rightarrow> int \<Rightarrow> int \<Rightarrow> int \<Rightarrow> int" where
  "MakeTime h m s ms = h * 3600000 + m * 60000 + s * 1000 + ms"

text \<open>\<open>MakeDay\<close> for a month in 0..11.\<close>

definition MakeDay :: "int \<Rightarrow> int \<Rightarrow> int \<Rightarrow> int" where
  "MakeDay y m d = DayFromYear y + monthStart (leapDay y) m + d - 1"

definition MakeDate :: "int \<Rightarrow> int \<Rightarrow> int" where
  "MakeDate day time = day * msPerDay + time"

definition TimeClip :: "int \<Rightarrow> timeval" where
  "TimeClip t = (if \<bar>t\<bar> \<le> 8640000000000000 then Some t else None)"

text \<open>
  The host: its time zone, as the offset \<open>LocalTZA\<close> of ECMA-262 in milliseconds (for a
  UTC time value and for a local one), and the engine's parser for the date strings that
  are in none of the three shapes below.
\<close>

record host =
  tzaOfUTC :: "int \<Rightarrow> int"
  tzaOfLocal :: "int \<Rightarrow> int"
  parseOther :: "string \<Rightarrow> timeval"

definition LocalTime :: "host \<Rightarrow> int \<Rightarrow> int" where
  "LocalTime H t = t + tzaOfUTC H t"

definition UTC :: "host \<Rightarrow> int \<Rightarrow> int" where
  "UTC H t = t - tzaOfLocal H t"

definition fixedZone :: "int \<Rightarrow> host" where
  "fixedZone offsetMinutes =
     \<lparr> tzaOfUTC = (\<lambda>_. offsetMinutes * 60000), tzaOfLocal = (\<lambda>_. offsetMinutes * 60000),
       parseOther = (\<lambda>_. None) \<rparr>"

text \<open>
  The parser accepts a month in 1..12, a day in 1..31 whatever the month (a day past the
  end of the month rolls over), and the hour 24 only as 24:00:00.000.
\<close>

definition validFields :: "int \<Rightarrow> int \<Rightarrow> int \<Rightarrow> int \<Rightarrow> int \<Rightarrow> int \<Rightarrow> bool" where
  "validFields mo d h mi s ms =
     (1 \<le> mo \<and> mo \<le> 12 \<and> 1 \<le> d \<and> d \<le> 31 \<and>
      ((h \<le> 23 \<and> mi \<le> 59 \<and> s \<le> 59) \<or> (h = 24 \<and> mi = 0 \<and> s = 0 \<and> ms = 0)))"

definition civilTime :: "int \<Rightarrow> int \<Rightarrow> int \<Rightarrow> int \<Rightarrow> int \<Rightarrow> int \<Rightarrow> int \<Rightarrow> int" where
  "civilTime y mo d h mi s ms = MakeDate (MakeDay y (mo - 1) d) (MakeTime h mi s ms)"

text \<open>\<open>YYYY-MM-DDTHH:MM:SS\<close>, no offset: local time.\<close>

definition isLocalDateTime :: "string \<Rightarrow> bool" where
  "isLocalDateTime s =
     (length s = 19 \<and> allDigits (substr s 0 4) \<and> s ! 4 = CHR ''-'' \<and>
      allDigits (substr s 5 2) \<and> s ! 7 = CHR ''-'' \<and> allDigits (substr s 8 2) \<and>
      s ! 10 = CHR ''T'' \<and> allDigits (substr s 11 2) \<and> s ! 13 = CHR '':'' \<and>
      allDigits (substr s 14 2) \<and> s ! 16 = CHR '':'' \<and> allDigits (substr s 17 2))"

text \<open>\<open>YYYY-MM-DD\<close>: midnight UTC.\<close>

definition isDateOnly :: "string \<Rightarrow> bool" where
  "isDateOnly s =
     (length s = 10 \<and> allDigits (substr s 0 4) \<and> s ! 4 = CHR ''-'' \<and>
      allDigits (substr s 5 2) \<and> s ! 7 = CHR ''-'' \<and> allDigits (substr s 8 2))"

text \<open>\<open>YYYY-MM-DDTHH:MM:SS.mmmZ\<close>, what \<open>toISOString\<close> writes for the years 0..9999.\<close>

definition isUtcInstant :: "string \<Rightarrow> bool" where
  "isUtcInstant s =
     (length s = 24 \<and> isLocalDateTime (take 19 s) \<and> s ! 19 = CHR ''.'' \<and>
      allDigits (substr s 20 3) \<and> s ! 23 = CHR ''Z'')"

definition parseLocalDateTime :: "host \<Rightarrow> string \<Rightarrow> timeval" where
  "parseLocalDateTime H s =
     (let y = numOf (substr s 0 4); mo = numOf (substr s 5 2); d = numOf (substr s 8 2);
          h = numOf (substr s 11 2); mi = numOf (substr s 14 2); se = numOf (substr s 17 2)
      in if validFields mo d h mi se 0
         then TimeClip (UTC H (civilTime y mo d h mi se 0)) else None)"

definition parseDateOnly :: "string \<Rightarrow> timeval" where
  "parseDateOnly s =
     (let y = numOf (substr s 0 4); mo = numOf (substr s 5 2); d = numOf (substr s 8 2)
      in if validFields mo d 0 0 0 0 then TimeClip (civilTime y mo d 0 0 0 0) else None)"

definition parseUtcInstant :: "string \<Rightarrow> timeval" where
  "parseUtcInstant s =
     (let y = numOf (substr s 0 4); mo = numOf (substr s 5 2); d = numOf (substr s 8 2);
          h = numOf (substr s 11 2); mi = numOf (substr s 14 2); se = numOf (substr s 17 2);
          ms = numOf (substr s 20 3)
      in if validFields mo d h mi se ms
         then TimeClip (civilTime y mo d h mi se ms) else None)"

text \<open>\<open>new Date(s).getTime()\<close>\<close>

definition newDate :: "host \<Rightarrow> string \<Rightarrow> timeval" where
  "newDate H s =
     (if isLocalDateTime s then parseLocalDateTime H s
      else if isDateOnly s then parseDateOnly s
      else if isUtcInstant s then parseUtcInstant s
      else parseOther H s)"

definition yearString :: "int \<Rightarrow> string" where
  "yearString y =
     (if 0 \<le> y \<and> y \<le> 9999 then padNum 4 (nat y)
      else (if y < 0 then ''-'' else ''+'') @ padNum 6 (nat \<bar>y\<bar>))"

text \<open>\<open>toISOString\<close> of a valid time value (an Invalid Date makes it throw).\<close>

definition isoString :: "int \<Rightarrow> string" where
  "isoString t =
     (let d = Day t; w = TimeWithinDay t
      in yearString (YearFromDay d) @ ''-'' @ padNum 2 (nat (MonthFromDay d + 1)) @ ''-'' @
         padNum 2 (nat (DateFromDay d)) @ ''T'' @ padNum 2 (nat (w div 3600000)) @ '':'' @
         padNum 2 (nat (w div 60000 mod 60)) @ '':'' @ padNum 2 (nat (w div 1000 mod 60)) @
         ''.'' @ padNum 3 (nat (w mod 1000)) @ ''Z'')"

datatype error = RangeError | DbError

definition toISOString :: "timeval \<Rightarrow> error + string" where
  "toISOString d = (case d of None \<Rightarrow> Inl RangeError | Some t \<Rightarrow> Inr (isoString t))"

text \<open>\<open>d.setHours(h, m, s, ms)\<close>: the new time value of \<open>d\<close>, which is also returned.\<close>

definition setHours :: "host \<Rightarrow> int \<Rightarrow> int \<Rightarrow> int \<Rightarrow> int \<Rightarrow> timeval \<Rightarrow> timeval" where
  "setHours H h m s ms d =
     (case d of None \<Rightarrow> None
      | Some t \<Rightarrow>
          (let date = MakeDate (Day (LocalTime H t)) (MakeTime h m s ms)
           in TimeClip (UTC H date)))"

section \<open>Punch records and the strict parser\<close>

record punch_row =
  pin :: string
  ts :: string
  status :: "string option"
  verify :: "string option"
  workcode :: "string option"
  reserved :: "string option"
  raw :: string

text \<open>\<open>parts[i] || null\<close>: a missing or empty token is \<open>null\<close>.\<close>

definition tokenOrNull :: "string list \<Rightarrow> nat \<Rightarrow> string option" where
  "tokenOrNull parts i = (if i < length parts \<and> parts ! i \<noteq> [] then Some (parts ! i) else None)"

text \<open>
  The tokens of a trimmed line: split at tabs, and when that gives fewer than two parts,
  at runs of white space; \<open>None\<close> when that too gives fewer than two (the \<open>continue\<close>).
\<close>

definition lineParts :: "string \<Rightarrow> string list option" where
  "lineParts line =
     (let parts = splitOn TAB line
      in if length parts < 2
         then (let parts' = splitWs line in if length parts' < 2 then None else Some parts')
         else Some parts)"

text \<open>
  One of the two formats, \<open>/^(\d{4})-(\d{2})-(\d{2}) (\d{2}):(\d{2}):(\d{2})$/\<close> with the
  date separator \<open>sep\<close>: the six groups of the match.
\<close>

definition matchFormat ::
  "char \<Rightarrow> string \<Rightarrow> (string \<times> string \<times> string \<times> string \<times> string \<times> string) option" where
  "matchFormat sep s =
     (if length s = 19 \<and> allDigits (substr s 0 4) \<and> s ! 4 = sep \<and>
         allDigits (substr s 5 2) \<and> s ! 7 = sep \<and> allDigits (substr s 8 2) \<and>
         s ! 10 = CHR '' '' \<and> allDigits (substr s 11 2) \<and> s ! 13 = CHR '':'' \<and>
         allDigits (substr s 14 2) \<and> s ! 16 = CHR '':'' \<and> allDigits (substr s 17 2)
      then Some (substr s 0 4, substr s 5 2, substr s 8 2,
                 substr s 11 2, substr s 14 2, substr s 17 2)
      else None)"

definition matchFormats ::
  "string \<Rightarrow> (string \<times> string \<times> string \<times> string \<times> string \<times> string) option" where
  "matchFormats s =
     (case matchFormat (CHR ''-'') s of Some m \<Rightarrow> Some m | None \<Rightarrow> matchFormat (CHR ''/'') s)"

text \<open>The template string \<open>`${match[1]}-${match[2]}-${match[3]}T${match[4]}:${match[5]}:${match[6]}`\<close>\<close>

definition dateTimeText :: "string \<times> string \<times> string \<times> string \<times> string \<times> string \<Rightarrow> string" where
  "dateTimeText m =
     (case m of (y, mo, d, h, mi, s) \<Rightarrow>
        y @ ''-'' @ mo @ ''-'' @ d @ ''T'' @ h @ '':'' @ mi @ '':'' @ s)"

text \<open>
  The variable \<open>ts\<close> after the loop over the formats: \<open>None\<close> is \<open>null\<close> (no format
  matched), \<open>Some d\<close> the Date built from the first match.
\<close>

definition parseTimestamp :: "host \<Rightarrow> string \<Rightarrow> timeval option" where
  "parseTimestamp H tsStr =
     (case matchFormats tsStr of None \<Rightarrow> None | Some m \<Rightarrow> Some (newDate H (dateTimeText m)))"

text \<open>The body of the loop over the lines: the row pushed, or \<open>None\<close> for \<open>continue\<close>.\<close>

definition parseAttlogLine :: "host \<Rightarrow> string \<Rightarrow> punch_row option" where
  "parseAttlogLine H rawLine =
     (let line = trim rawLine
      in if line = [] then None
         else (case lineParts line of None \<Rightarrow> None
               | Some parts \<Rightarrow>
                   (case parseTimestamp H (parts ! 1) of
                      None \<Rightarrow> None
                    | Some None \<Rightarrow> None
                    | Some (Some t) \<Rightarrow>
                        Some \<lparr> pin = parts ! 0, ts = isoString t,
                               status = tokenOrNull parts 2, verify = tokenOrNull parts 3,
                               workcode = tokenOrNull parts 4, reserved = tokenOrNull parts 5,
                               raw = line \<rparr>)))"

definition parseAttlogText :: "host \<Rightarrow> string \<Rightarrow> punch_row list" where
  "parseAttlogText H text = List.map_filter (parseAttlogLine H) (splitLines text)"

section \<open>The store\<close>

text \<open>
  The three tables, with the columns the program reads and writes (the row id and the
  bookkeeping columns \<open>created_at\<close>, \<open>updated_at\<close>, \<open>first_registered\<close>, which the program
  never reads, are left out). An attendance row is also the \<open>attendanceData\<close> object that
  \<open>computeAttendanceForDay\<close> returns; its \<open>duration_minutes\<close> is \<open>None\<close> for \<open>NaN\<close>.
\<close>

record attendance_row =
  att_pin :: string
  att_day :: string
  first_ts :: string
  last_ts :: string
  duration_minutes :: "int option"
  att_status :: string

record device_row =
  serial_number :: string
  dev_status :: string
  last_seen :: "string option"

text \<open>An entry of \<open>deviceCache\<close>; a field that is \<open>null\<close> is \<open>None\<close>.\<close>

record device_info =
  cstatus :: string
  lastSeen :: "timeval option"
  lastHeartbeat :: "timeval option"

text \<open>The statements the program sends through \<open>db.execute\<close>, with their arguments.\<close>

datatype stmt =
    SelectDistinctPins string string
  | SelectPunches string string string
  | SelectAttendance string string
  | UpdateAttendance attendance_row
  | InsertAttendance attendance_row
  | InsertPunch punch_row
  | SelectAllDevices
  | SelectDevice string
  | InsertDevice string string
  | UpdateDeviceOnline string string
  | UpdateDeviceLastSeen string string
  | UpdateDeviceOffline string

datatype rows =
    NoRows
  | PinRows "string list"
  | PunchRows "punch_row list"
  | AttendanceRows "attendance_row list"
  | DeviceRows "device_row list"

text \<open>
  The state of the process and of its database. \<open>faults\<close> is the fate of the coming
  calls of \<open>db.execute\<close>, one flag per call (\<open>True\<close>: the call throws; past the end of
  the list every call succeeds); \<open>issued\<close> records every statement sent.
\<close>

record world =
  punch :: "punch_row list"
  attendance :: "attendance_row list"
  devices :: "device_row list"
  deviceCache :: "(string \<times> device_info) list"
  faults :: "bool list"
  issued :: "stmt list"

definition pinsOf :: "rows \<Rightarrow> string list" where
  "pinsOf r = (case r of PinRows ps \<Rightarrow> ps | _ \<Rightarrow> [])"

definition punchesOf :: "rows \<Rightarrow> punch_row list" where
  "punchesOf r = (case r of PunchRows ps \<Rightarrow> ps | _ \<Rightarrow> [])"

definition attendanceOf :: "rows \<Rightarrow> attendance_row list" where
  "attendanceOf r = (case r of AttendanceRows ps \<Rightarrow> ps | _ \<Rightarrow> [])"

definition devicesOf :: "rows \<Rightarrow> device_row list" where
  "devicesOf r = (case r of DeviceRows ps \<Rightarrow> ps | _ \<Rightarrow> [])"

text \<open>\<open>WHERE ts >= ? AND ts <= ?\<close> on a TEXT column: the comparison of the strings.\<close>

definition tsBetween :: "string \<Rightarrow> string \<Rightarrow> punch_row \<Rightarrow> bool" where
  "tsBetween startDt endDt r = (startDt \<le> ts r \<and> ts r \<le> endDt)"

definition sameKey :: "string \<Rightarrow> string \<Rightarrow> attendance_row \<Rightarrow> bool" where
  "sameKey p d r = (att_pin r = p \<and> att_day r = d)"

text \<open>\<open>SELECT DISTINCT pin FROM punch WHERE ts >= ? AND ts <= ?\<close>\<close>

definition pinsBetween :: "string \<Rightarrow> string \<Rightarrow> punch_row list \<Rightarrow> string list" where
  "pinsBetween startDt endDt tbl = remdups (map pin (filter (tsBetween startDt endDt) tbl))"

text \<open>\<open>SELECT * FROM punch WHERE pin = ? AND ts >= ? AND ts <= ? ORDER BY ts ASC\<close>\<close>

definition punchesFor :: "string \<Rightarrow> string \<Rightarrow> string \<Rightarrow> punch_row list \<Rightarrow> punch_row list" where
  "punchesFor p startDt endDt tbl =
     sort_key ts (filter (\<lambda>r. pin r = p \<and> tsBetween startDt endDt r) tbl)"

text \<open>
  \<open>UPDATE attendance SET first_ts = ?, last_ts = ?, duration_minutes = ?, status = ?
  WHERE pin = ? AND day = ?\<close>, on one row.
\<close>

definition overwrite :: "attendance_row \<Rightarrow> attendance_row \<Rightarrow> attendance_row" where
  "overwrite a r =
     (if sameKey (att_pin a) (att_day a) r
      then r\<lparr>first_ts := first_ts a, last_ts := last_ts a,
             duration_minutes := duration_minutes a, att_status := att_status a\<rparr>
      else r)"

text \<open>What a statement that does not fail reads and writes.\<close>

fun run :: "stmt \<Rightarrow> world \<Rightarrow> (error + rows) \<times> world" where
  "run (SelectDistinctPins startDt endDt) w =
     (Inr (PinRows (pinsBetween startDt endDt (punch w))), w)"
| "run (SelectPunches p startDt endDt) w =
     (Inr (PunchRows (punchesFor p startDt endDt (punch w))), w)"
| "run (SelectAttendance p d) w =
     (Inr (AttendanceRows (filter (sameKey p d) (attendance w))), w)"
| "run (UpdateAttendance a) w =
     (Inr NoRows, w\<lparr>attendance := map (overwrite a) (attendance w)\<rparr>)"
| "run (InsertAttendance a) w = (Inr NoRows, w\<lparr>attendance := attendance w @ [a]\<rparr>)"
| "run (InsertPunch r) w = (Inr NoRows, w\<lparr>punch := punch w @ [r]\<rparr>)"
| "run SelectAllDevices w = (Inr (DeviceRows (devices w)), w)"
| "run (SelectDevice sn) w =
     (Inr (DeviceRows (filter (\<lambda>d. serial_number d = sn) (devices w))), w)"
| "run (InsertDevice sn seen) w =
     (if sn \<in> set (map serial_number (devices w)) then (Inl DbError, w)
      else (Inr NoRows,
            w\<lparr>devices := devices w @
                 [\<lparr>serial_number = sn, dev_status = ''ONLINE'', last_seen = Some seen\<rparr>]\<rparr>))"
| "run (UpdateDeviceOnline seen sn) w =
     (Inr NoRows,
      w\<lparr>devices :=
          map (\<lambda>d. if serial_number d = sn
                    then d\<lparr>dev_status := ''ONLINE'', last_seen := Some seen\<rparr> else d)
              (devices w)\<rparr>)"
| "run (UpdateDeviceLastSeen seen sn) w =
     (Inr NoRows,
      w\<lparr>devices :=
          map (\<lambda>d. if serial_number d = sn then d\<lparr>last_seen := Some seen\<rparr> else d)
              (devices w)\<rparr>)"
| "run (UpdateDeviceOffline sn) w =
     (Inr NoRows,
      w\<lparr>devices :=
          map (\<lambda>d. if serial_number d = sn then d\<lparr>dev_status := ''OFFLINE''\<rparr> else d)
              (devices w)\<rparr>)"

text \<open>\<open>await db.execute(q)\<close>: the statement is sent; it throws or it runs.\<close>

definition execute :: "stmt \<Rightarrow> world \<Rightarrow> (error + rows) \<times> world" where
  "execute q w =
     (let w' = w\<lparr>faults := tl (faults w), issued := issued w @ [q]\<rparr>
      in case faults w of
           True # _ \<Rightarrow> (Inl DbError, w')
         | _ \<Rightarrow> run q w')"

section \<open>Attendance of a day\<close>

text \<open>
  \<open>startDt\<close> and \<open>endDt\<close>: the day string is parsed, \<open>setHours\<close> moves the Date to 0:00:00.000
  and then to 23:59:59.999 of its local day, and \<open>toISOString\<close> throws on an Invalid Date.
\<close>

definition dayRange :: "host \<Rightarrow> string \<Rightarrow> error + (string \<times> string)" where
  "dayRange H dayStr =
     (let dayDate = newDate H dayStr;
          dayStart = setHours H 0 0 0 0 dayDate
      in case toISOString dayStart of
           Inl e \<Rightarrow> Inl e
         | Inr startDt \<Rightarrow>
             (case toISOString (setHours H 23 59 59 999 dayStart) of
                Inl e \<Rightarrow> Inl e
              | Inr endDt \<Rightarrow> Inr (startDt, endDt)))"

text \<open>
  \<open>Math.floor((lastTs - firstTs) / 60000)\<close>; the difference of two Dates is \<open>NaN\<close> when one
  of them is invalid.
\<close>

definition minutesBetween :: "timeval \<Rightarrow> timeval \<Rightarrow> int option" where
  "minutesBetween firstTs lastTs =
     (case (firstTs, lastTs) of
        (Some f, Some l) \<Rightarrow> Some ((l - f) div 60000)
      | _ \<Rightarrow> None)"

text \<open>The status; a comparison with \<open>NaN\<close> is false.\<close>

definition classify :: "int \<Rightarrow> int option \<Rightarrow> string" where
  "classify MINUTES_FOR_PRESENT durationMinutes =
     (case durationMinutes of
        None \<Rightarrow> ''ABSENT''
      | Some m \<Rightarrow>
          if m \<ge> MINUTES_FOR_PRESENT then ''PRESENT''
          else if m > 0 then ''SHORT''
          else ''ABSENT'')"

text \<open>\<open>attendanceData\<close> for a pin and its punches of the day, first \<open>p0\<close> and last \<open>pn\<close>.\<close>

definition attendanceData ::
  "host \<Rightarrow> int \<Rightarrow> string \<Rightarrow> string \<Rightarrow> punch_row \<Rightarrow> punch_row \<Rightarrow> attendance_row" where
  "attendanceData H MINUTES_FOR_PRESENT p dayStr p0 pn =
     (let durationMinutes = minutesBetween (newDate H (ts p0)) (newDate H (ts pn))
      in \<lparr> att_pin = p, att_day = dayStr, first_ts = ts p0, last_ts = ts pn,
           duration_minutes = durationMinutes,
           att_status = classify MINUTES_FOR_PRESENT durationMinutes \<rparr>)"

text \<open>
  The loop over the pins. The callback to \<open>CALLBACK_URL\<close> is inside its own
  \<open>try\<close>/\<open>catch\<close> and touches neither the store nor the results.
\<close>

fun attendanceLoop ::
  "host \<Rightarrow> int \<Rightarrow> string \<Rightarrow> string \<Rightarrow> string \<Rightarrow> string list \<Rightarrow> attendance_row list \<Rightarrow> world
   \<Rightarrow> (error + attendance_row list) \<times> world" where
  "attendanceLoop H M dayStr startDt endDt [] results w = (Inr results, w)"
| "attendanceLoop H M dayStr startDt endDt (p # ps) results w =
     (case execute (SelectPunches p startDt endDt) w of
        (Inl e, w1) \<Rightarrow> (Inl e, w1)
      | (Inr punchesResult, w1) \<Rightarrow>
          (case punchesOf punchesResult of
             [] \<Rightarrow> attendanceLoop H M dayStr startDt endDt ps results w1
           | p0 # rest \<Rightarrow>
               (let a = attendanceData H M p dayStr p0 (last (p0 # rest))
                in case execute (SelectAttendance p dayStr) w1 of
                     (Inl e, w2) \<Rightarrow> (Inl e, w2)
                   | (Inr existingResult, w2) \<Rightarrow>
                       (case execute (if attendanceOf existingResult \<noteq> []
                                      then UpdateAttendance a else InsertAttendance a) w2 of
                          (Inl e, w3) \<Rightarrow> (Inl e, w3)
                        | (Inr _, w3) \<Rightarrow>
                            attendanceLoop H M dayStr startDt endDt ps (results @ [a]) w3))))"

definition computeAttendanceForDay ::
  "host \<Rightarrow> int \<Rightarrow> string \<Rightarrow> world \<Rightarrow> (error + attendance_row list) \<times> world" where
  "computeAttendanceForDay H M dayStr w =
     (case dayRange H dayStr of
        Inl e \<Rightarrow> (Inl e, w)
      | Inr (startDt, endDt) \<Rightarrow>
          (case execute (SelectDistinctPins startDt endDt) w of
             (Inl e, w1) \<Rightarrow> (Inl e, w1)
           | (Inr pinsResult, w1) \<Rightarrow>
               attendanceLoop H M dayStr startDt endDt (pinsOf pinsResult) [] w1))"

section \<open>Device liveness\<close>

definition DEVICE_OFFLINE_THRESHOLD :: int where
  "DEVICE_OFFLINE_THRESHOLD = 30000"

text \<open>\<open>deviceCache.set(sn, info)\<close>: a Map keeps the place of a key it already has.\<close>

fun cacheSet ::
  "string \<Rightarrow> device_info \<Rightarrow> (string \<times> device_info) list \<Rightarrow> (string \<times> device_info) list" where
  "cacheSet sn info [] = [(sn, info)]"
| "cacheSet sn info ((k, v) # rest) =
     (if k = sn then (k, info) # rest else (k, v) # cacheSet sn info rest)"

definition cacheGet :: "(string \<times> device_info) list \<Rightarrow> string \<Rightarrow> device_info option" where
  "cacheGet cache sn = map_of cache sn"

text \<open>
  The test of the monitor on one entry: a \<open>lastHeartbeat\<close> that is \<open>null\<close> is skipped, and
  the difference with an Invalid Date is \<open>NaN\<close>, which is not greater than the threshold.
\<close>

definition goesOffline :: "int \<Rightarrow> device_info \<Rightarrow> bool" where
  "goesOffline now info =
     (case lastHeartbeat info of
        None \<Rightarrow> False
      | Some None \<Rightarrow> False
      | Some (Some hb) \<Rightarrow> now - hb > DEVICE_OFFLINE_THRESHOLD \<and> cstatus info = ''ONLINE'')"

text \<open>The scan of the cache: the entries after it, and \<open>devicesToUpdate\<close>.\<close>

fun scanCache ::
  "int \<Rightarrow> (string \<times> device_info) list \<Rightarrow> (string \<times> device_info) list \<times> string list" where
  "scanCache now [] = ([], [])"
| "scanCache now ((serialNumber, deviceInfo) # rest) =
     (case scanCache now rest of
        (rest', devicesToUpdate) \<Rightarrow>
          if goesOffline now deviceInfo
          then ((serialNumber, deviceInfo\<lparr>cstatus := ''OFFLINE''\<rparr>) # rest',
                serialNumber # devicesToUpdate)
          else ((serialNumber, deviceInfo) # rest', devicesToUpdate))"

text \<open>The updates of the batch: each in its own \<open>try\<close>/\<open>catch\<close>, so a failure is passed over.\<close>

fun markOffline :: "string list \<Rightarrow> world \<Rightarrow> world" where
  "markOffline [] w = w"
| "markOffline (sn # sns) w = markOffline sns (snd (execute (UpdateDeviceOffline sn) w))"

text \<open>One run of the callback of \<open>setInterval\<close> in \<open>startDeviceMonitor\<close>, at time \<open>now\<close>.\<close>

definition deviceMonitorRun :: "int \<Rightarrow> world \<Rightarrow> world" where
  "deviceMonitorRun now w =
     (case scanCache now (deviceCache w) of
        (cache', devicesToUpdate) \<Rightarrow> markOffline devicesToUpdate (w\<lparr>deviceCache := cache'\<rparr>))"

text \<open>\<open>loadDevicesIntoCache\<close>; an error is logged and the cache left as it is.\<close>

definition cachedDate :: "host \<Rightarrow> string option \<Rightarrow> timeval option" where
  "cachedDate H seen =
     (case seen of None \<Rightarrow> None | Some s \<Rightarrow> if s = [] then None else Some (newDate H s))"

definition loadDevicesIntoCache :: "host \<Rightarrow> world \<Rightarrow> world" where
  "loadDevicesIntoCache H w =
     (case execute SelectAllDevices w of
        (Inl e, w1) \<Rightarrow> w1
      | (Inr result, w1) \<Rightarrow>
          w1\<lparr>deviceCache :=
               fold (\<lambda>row cache.
                       cacheSet (serial_number row)
                         \<lparr> cstatus = dev_status row, lastSeen = cachedDate H (last_seen row),
                           lastHeartbeat = cachedDate H (last_seen row) \<rparr> cache)
                    (devicesOf result) (deviceCache w1)\<rparr>)"

text \<open>What \<open>res.status(code).send(body)\<close> sends.\<close>

record response =
  code :: nat
  body :: string

definition sendOK :: response where
  "sendOK = \<lparr> code = 200, body = ''OK'' \<rparr>"

text \<open>\<open>!deviceInfo.lastSeen || (now - deviceInfo.lastSeen) > 10000\<close>\<close>

definition lastSeenStale :: "int \<Rightarrow> device_info \<Rightarrow> bool" where
  "lastSeenStale now info =
     (case lastSeen info of
        None \<Rightarrow> True
      | Some None \<Rightarrow> False
      | Some (Some seen) \<Rightarrow> now - seen > 10000)"

text \<open>
  The heartbeat of a device that is in the cache. The two updates are not awaited and
  their failure is caught, so they cannot reach the \<open>catch\<close> of the handler.
\<close>

definition heartbeatCached :: "string \<Rightarrow> int \<Rightarrow> device_info \<Rightarrow> world \<Rightarrow> world" where
  "heartbeatCached serialNumber now deviceInfo w =
     (let nowISO = isoString now;
          info1 = deviceInfo\<lparr>lastHeartbeat := Some (Some now)\<rparr>;
          wasOffline = (cstatus info1 = ''OFFLINE'');
          info2 = (if wasOffline then info1\<lparr>cstatus := ''ONLINE''\<rparr> else info1);
          w1 = (if wasOffline then snd (execute (UpdateDeviceOnline nowISO serialNumber) w)
                else w);
          stale = lastSeenStale now info2;
          info3 = (if stale then info2\<lparr>lastSeen := Some (Some now)\<rparr> else info2);
          w2 = (if stale then snd (execute (UpdateDeviceLastSeen nowISO serialNumber) w1)
                else w1)
      in w2\<lparr>deviceCache := cacheSet serialNumber info3 (deviceCache w2)\<rparr>)"

text \<open>
  The heartbeat of a device that is not in the cache: the two statements are awaited
  inside the \<open>try\<close>, so a failure skips the rest and the \<open>catch\<close> answers.
\<close>

definition heartbeatNew :: "string \<Rightarrow> int \<Rightarrow> world \<Rightarrow> world" where
  "heartbeatNew serialNumber now w =
     (let nowISO = isoString now
      in case execute (SelectDevice serialNumber) w of
           (Inl e, w1) \<Rightarrow> w1
         | (Inr dbResult, w1) \<Rightarrow>
             (case execute (if devicesOf dbResult = [] then InsertDevice serialNumber nowISO
                            else UpdateDeviceOnline nowISO serialNumber) w1 of
                (Inl e, w2) \<Rightarrow> w2
              | (Inr _, w2) \<Rightarrow>
                  w2\<lparr>deviceCache :=
                       cacheSet serialNumber
                         \<lparr> cstatus = ''ONLINE'', lastSeen = Some (Some now),
                           lastHeartbeat = Some (Some now) \<rparr> (deviceCache w2)\<rparr>))"

text \<open>
  \<open>GET /iclock/getrequest.aspx\<close> with the query parameter \<open>SN\<close> (\<open>None\<close> when it is
  missing), handled at time \<open>now\<close>.
\<close>

definition getrequest :: "string option \<Rightarrow> int \<Rightarrow> world \<Rightarrow> response \<times> world" where
  "getrequest SN now w =
     (case SN of
        None \<Rightarrow> (\<lparr> code = 400, body = ''OK'' \<rparr>, w)
      | Some serialNumber \<Rightarrow>
          if serialNumber = [] then (\<lparr> code = 400, body = ''OK'' \<rparr>, w)
          else (case cacheGet (deviceCache w) serialNumber of
                  None \<Rightarrow> (sendOK, heartbeatNew serialNumber now w)
                | Some deviceInfo \<Rightarrow> (sendOK, heartbeatCached serialNumber now deviceInfo w)))"

text \<open>A run of heartbeats of one device, at the given times.\<close>

fun heartbeats :: "string \<Rightarrow> int list \<Rightarrow> world \<Rightarrow> world" where
  "heartbeats sn [] w = w"
| "heartbeats sn (now # later) w = heartbeats sn later (snd (getrequest (Some sn) now w))"

section \<open>Ingestion\<close>

definition UNKNOWN :: string where
  "UNKNOWN = ''UNKNOWN''"

text \<open>
  The row that the loop for the other tables inserts for a trimmed line that is not
  empty, when the clock reads \<open>now\<close>. \<open>new Date\<close> and \<open>replace\<close> do not throw, so the inner
  \<open>catch\<close> is never entered.
\<close>

definition otherLogRow :: "host \<Rightarrow> int \<Rightarrow> string \<Rightarrow> punch_row" where
  "otherLogRow H now line =
     (let parts = splitOn TAB line;
          p = (case parts of [] \<Rightarrow> UNKNOWN | p0 # _ \<Rightarrow> if p0 = [] then UNKNOWN else p0);
          t = (if length parts > 1
               then (case newDate H (slashesToDashes (parts ! 1)) of
                       Some parsed \<Rightarrow> isoString parsed
                     | None \<Rightarrow> isoString now)
               else isoString now)
      in \<lparr> pin = p, ts = t, status = None, verify = None, workcode = None, reserved = None,
           raw = line \<rparr>)"

text \<open>
  The loop over the lines of the other tables; \<open>clock i\<close> is the reading of the clock while
  line number \<open>i\<close> is handled. The result is \<open>inserted\<close>, or the error that leaves the loop.
\<close>

fun otherLogLoop ::
  "host \<Rightarrow> (nat \<Rightarrow> int) \<Rightarrow> nat \<Rightarrow> string list \<Rightarrow> nat \<Rightarrow> world \<Rightarrow> (error + nat) \<times> world" where
  "otherLogLoop H clock i [] inserted w = (Inr inserted, w)"
| "otherLogLoop H clock i (rawLine # rest) inserted w =
     (let line = trim rawLine
      in if line = [] then otherLogLoop H clock (Suc i) rest inserted w
         else (case execute (InsertPunch (otherLogRow H (clock i) line)) w of
                 (Inl e, w1) \<Rightarrow> (Inl e, w1)
               | (Inr _, w1) \<Rightarrow> otherLogLoop H clock (Suc i) rest (Suc inserted) w1))"

fun insertPunches :: "punch_row list \<Rightarrow> nat \<Rightarrow> world \<Rightarrow> (error + nat) \<times> world" where
  "insertPunches [] inserted w = (Inr inserted, w)"
| "insertPunches (row # rest) inserted w =
     (case execute (InsertPunch row) w of
        (Inl e, w1) \<Rightarrow> (Inl e, w1)
      | (Inr _, w1) \<Rightarrow> insertPunches rest (Suc inserted) w1)"

text \<open>\<open>[...new Set(rows.map(r => r.ts.split('T')[0]))]\<close>: each day once, by first occurrence.\<close>

definition affectedDays :: "punch_row list \<Rightarrow> string list" where
  "affectedDays rs = rev (remdups (rev (map (\<lambda>r. hd (splitOn (CHR ''T'') (ts r))) rs)))"

fun attendanceForDays ::
  "host \<Rightarrow> int \<Rightarrow> string list \<Rightarrow> attendance_row list \<Rightarrow> world
   \<Rightarrow> (error + attendance_row list) \<times> world" where
  "attendanceForDays H M [] results w = (Inr results, w)"
| "attendanceForDays H M (day # days) results w =
     (case computeAttendanceForDay H M day w of
        (Inl e, w1) \<Rightarrow> (Inl e, w1)
      | (Inr dayResults, w1) \<Rightarrow> attendanceForDays H M days (results @ dayResults) w1)"

definition toUpperCase :: "char \<Rightarrow> char" where
  "toUpperCase c =
     (if 97 \<le> (of_char c :: nat) \<and> (of_char c :: nat) \<le> 122
      then char_of ((of_char c :: nat) - 32) else c)"

text \<open>
  \<open>table && table.toUpperCase().includes('ATTLOG')\<close>; only the letters a..z become the
  letters of \<open>ATTLOG\<close> in upper case.
\<close>

definition isAttlog :: "string option \<Rightarrow> bool" where
  "isAttlog table =
     (case table of
        None \<Rightarrow> False
      | Some t \<Rightarrow> list_ex (\<lambda>i. take 6 (drop i (map toUpperCase t)) = ''ATTLOG'') [0..<length t])"

datatype reply =
    BadRequest string
  | AttlogDone nat "attendance_row list"
  | OtherDone nat
  | InternalError

text \<open>
  \<open>POST /iclock/cdata.aspx\<close>: the table of the query, the body as a string (\<open>None\<close> when it
  is neither a Buffer nor a string).
\<close>

definition postCdata ::
  "host \<Rightarrow> int \<Rightarrow> (nat \<Rightarrow> int) \<Rightarrow> string option \<Rightarrow> string option \<Rightarrow> world \<Rightarrow> reply \<times> world" where
  "postCdata H M clock table reqBody w =
     (case reqBody of
        None \<Rightarrow> (BadRequest ''Invalid body format'', w)
      | Some rawText \<Rightarrow>
          if trim rawText = [] then (BadRequest ''empty body'', w)
          else if isAttlog table
          then (let rs = parseAttlogText H rawText
                in case insertPunches rs 0 w of
                     (Inl e, w1) \<Rightarrow> (InternalError, w1)
                   | (Inr inserted, w1) \<Rightarrow>
                       (case attendanceForDays H M (affectedDays rs) [] w1 of
                          (Inl e, w2) \<Rightarrow> (InternalError, w2)
                        | (Inr results, w2) \<Rightarrow> (AttlogDone inserted results, w2)))
          else (case otherLogLoop H clock 0 (splitLines rawText) 0 w of
                  (Inl e, w1) \<Rightarrow> (InternalError, w1)
                | (Inr inserted, w1) \<Rightarrow> (OtherDone inserted, w1)))"

section \<open>Terms of the statements\<close>

text \<open>For a token that matches a format: whether its fields are accepted, and the time they name.\<close>

definition stampValid :: "string \<Rightarrow> bool" where
  "stampValid s =
     validFields (numOf (substr s 5 2)) (numOf (substr s 8 2)) (numOf (substr s 11 2))
       (numOf (substr s 14 2)) (numOf (substr s 17 2)) 0"

definition stampCivil :: "string \<Rightarrow> int" where
  "stampCivil s =
     civilTime (numOf (substr s 0 4)) (numOf (substr s 5 2)) (numOf (substr s 8 2))
       (numOf (substr s 11 2)) (numOf (substr s 14 2)) (numOf (substr s 17 2)) 0"

definition emptyWorld :: world where
  "emptyWorld = \<lparr> punch = [], attendance = [], devices = [], deviceCache = [],
                  faults = [], issued = [] \<rparr>"

definition exampleLine :: string where
  "exampleLine = ''A1001'' @ [TAB] @ ''2024-03-05 09:15:30''"

definition unrecognizedLine :: string where
  "unrecognizedLine = ''A1001'' @ [TAB] @ ''05-03-2024''"

definition badMonthLine :: string where
  "badMonthLine = ''A1001'' @ [TAB] @ ''2024-13-05 09:15:30''"

text \<open>The lines of a body that have content, with their numbers.\<close>

definition nonBlankLines :: "string \<Rightarrow> (nat \<times> string) list" where
  "nonBlankLines rawText = filter (\<lambda>(i, l). trim l \<noteq> []) (enumerate 0 (splitLines rawText))"

definition otherLogRows :: "host \<Rightarrow> (nat \<Rightarrow> int) \<Rightarrow> (nat \<times> string) list \<Rightarrow> punch_row list" where
  "otherLogRows H clock ls = map (\<lambda>(i, l). otherLogRow H (clock i) (trim l)) ls"

definition otherBody :: string where
  "otherBody = ''x'' @ [TAB] @ ''2024/03/05'' @ [TAB] @ ''z'' @ [CHR 0x0A] @ '' '' @ [CHR 0x0A] @
               ''OP7'' @ [TAB] @ ''soon''"

definition secondsClock :: "nat \<Rightarrow> int" where
  "secondsClock i = 1000 * int i"

text \<open>The statements sent between two states.\<close>

definition newlyIssued :: "world \<Rightarrow> world \<Rightarrow> stmt list" where
  "newlyIssued w w' = drop (length (issued w)) (issued w')"

text \<open>The update of \<open>last_seen\<close> alone, and any statement that writes \<open>last_seen\<close>, for a device.\<close>

definition isLastSeenUpdate :: "string \<Rightarrow> stmt \<Rightarrow> bool" where
  "isLastSeenUpdate sn q = (case q of UpdateDeviceLastSeen seen s \<Rightarrow> s = sn | _ \<Rightarrow> False)"

definition writesLastSeen :: "string \<Rightarrow> stmt \<Rightarrow> bool" where
  "writesLastSeen sn q =
     (case q of
        UpdateDeviceLastSeen seen s \<Rightarrow> s = sn
      | UpdateDeviceOnline seen s \<Rightarrow> s = sn
      | InsertDevice s seen \<Rightarrow> s = sn
      | _ \<Rightarrow> False)"

definition onlineDevice :: "int \<Rightarrow> device_info" where
  "onlineDevice seen =
     \<lparr> cstatus = ''ONLINE'', lastSeen = Some (Some seen), lastHeartbeat = Some (Some seen) \<rparr>"

definition cachedWorld :: "(string \<times> device_info) list \<Rightarrow> world" where
  "cachedWorld cache = emptyWorld\<lparr>deviceCache := cache\<rparr>"

definition tenHeartbeats :: "int list" where
  "tenHeartbeats = [100000, 100200, 100400, 100600, 100800, 101000, 101200, 101400, 101600, 101800]"

definition staleDevice :: device_info where
  "staleDevice =
     \<lparr> cstatus = ''ONLINE'', lastSeen = Some (Some 91000), lastHeartbeat = Some (Some 99000) \<rparr>"

definition sweptCache :: "(string \<times> device_info) list" where
  "sweptCache =
     [(''A'', \<lparr> cstatus = ''ONLINE'', lastSeen = Some (Some 0), lastHeartbeat = Some (Some 10000) \<rparr>),
      (''B'', \<lparr> cstatus = ''ONLINE'', lastSeen = Some (Some 0), lastHeartbeat = Some (Some 9999) \<rparr>),
      (''C'', \<lparr> cstatus = ''OFFLINE'', lastSeen = Some (Some 0), lastHeartbeat = Some (Some 0) \<rparr>),
      (''D'', \<lparr> cstatus = ''ONLINE'', lastSeen = None, lastHeartbeat = None \<rparr>),
      (''E'', \<lparr> cstatus = ''ONLINE'', lastSeen = Some (Some 0), lastHeartbeat = Some (Some 0) \<rparr>)]"

text \<open>
  The upsert of the loop on the attendance table, the record of a pin for a day from the
  punch table, and the records of a list of pins.
\<close>

definition upsert :: "attendance_row \<Rightarrow> attendance_row list \<Rightarrow> attendance_row list" where
  "upsert a tbl =
     (if filter (sameKey (att_pin a) (att_day a)) tbl \<noteq> [] then map (overwrite a) tbl
      else tbl @ [a])"

definition dayRecord ::
  "host \<Rightarrow> int \<Rightarrow> string \<Rightarrow> string \<Rightarrow> string \<Rightarrow> punch_row list \<Rightarrow> string
   \<Rightarrow> attendance_row option" where
  "dayRecord H M dayStr startDt endDt tbl p =
     (case punchesFor p startDt endDt tbl of
        [] \<Rightarrow> None
      | p0 # rest \<Rightarrow> Some (attendanceData H M p dayStr p0 (last (p0 # rest))))"

definition dayRecords ::
  "host \<Rightarrow> int \<Rightarrow> string \<Rightarrow> string \<Rightarrow> string \<Rightarrow> punch_row list \<Rightarrow> string list
   \<Rightarrow> attendance_row list" where
  "dayRecords H M dayStr startDt endDt tbl ps =
     List.map_filter (dayRecord H M dayStr startDt endDt tbl) ps"

definition keysUnique :: "attendance_row list \<Rightarrow> bool" where
  "keysUnique tbl = distinct (map (\<lambda>r. (att_pin r, att_day r)) tbl)"

text \<open>\<open>computeAttendanceForDay\<close> called \<open>n\<close> times in a row.\<close>

fun recompute :: "host \<Rightarrow> int \<Rightarrow> string \<Rightarrow> nat \<Rightarrow> world \<Rightarrow> world" where
  "recompute H M dayStr 0 w = w"
| "recompute H M dayStr (Suc n) w =
     recompute H M dayStr n (snd (computeAttendanceForDay H M dayStr w))"

text \<open>A record is settled in a table that has a row with its key and only that record under it.\<close>

definition settledRow :: "attendance_row \<Rightarrow> attendance_row list \<Rightarrow> bool" where
  "settledRow a tbl =
     ((\<exists>r \<in> set tbl. sameKey (att_pin a) (att_day a) r) \<and>
      (\<forall>r \<in> set tbl. sameKey (att_pin a) (att_day a) r \<longrightarrow> r = a))"

definition punchAt :: "string \<Rightarrow> string \<Rightarrow> punch_row" where
  "punchAt p t = \<lparr> pin = p, ts = t, status = None, verify = None, workcode = None,
                   reserved = None, raw = p @ [TAB] @ t \<rparr>"

definition punchedWorld :: world where
  "punchedWorld =
     emptyWorld\<lparr>punch :=
       [punchAt ''A1'' ''2024-03-05T15:00:00.000Z'', punchAt ''B2'' ''2024-03-05T09:00:00.000Z'',
        punchAt ''A1'' ''2024-03-05T09:00:00.000Z'', punchAt ''B2'' ''2024-03-05T09:10:59.000Z'',
        punchAt ''C3'' ''2024-03-05T23:59:59.999Z'', punchAt ''D4'' ''2024-03-06T00:00:00.000Z'']\<rparr>"

definition punchedDay :: "attendance_row list" where
  "punchedDay =
     [\<lparr> att_pin = ''A1'', att_day = ''2024-03-05'', first_ts = ''2024-03-05T09:00:00.000Z'',
        last_ts = ''2024-03-05T15:00:00.000Z'', duration_minutes = Some 360,
        att_status = ''PRESENT'' \<rparr>,
      \<lparr> att_pin = ''B2'', att_day = ''2024-03-05'', first_ts = ''2024-03-05T09:00:00.000Z'',
        last_ts = ''2024-03-05T09:10:59.000Z'', duration_minutes = Some 10,
        att_status = ''SHORT'' \<rparr>,
      \<lparr> att_pin = ''C3'', att_day = ''2024-03-05'', first_ts = ''2024-03-05T23:59:59.999Z'',
        last_ts = ''2024-03-05T23:59:59.999Z'', duration_minutes = Some 0,
        att_status = ''ABSENT'' \<rparr>]"

text \<open>
  For a token that matches a format: whether it names a time of the calendar (a day of
  its month, an hour below 24), and the text of that time as a UTC instant.
\<close>

definition daysInMonth :: "int \<Rightarrow> int \<Rightarrow> int" where
  "daysInMonth y mo =
     (if mo = 2 then 28 + leapDay y
      else if mo = 4 \<or> mo = 6 \<or> mo = 9 \<or> mo = 11 then 30 else 31)"

definition stampReal :: "string \<Rightarrow> bool" where
  "stampReal s =
     (1 \<le> numOf (substr s 5 2) \<and> numOf (substr s 5 2) \<le> 12 \<and>
      1 \<le> numOf (substr s 8 2) \<and>
      numOf (substr s 8 2) \<le> daysInMonth (numOf (substr s 0 4)) (numOf (substr s 5 2)) \<and>
      numOf (substr s 11 2) \<le> 23 \<and> numOf (substr s 14 2) \<le> 59 \<and> numOf (substr s 17 2) \<le> 59)"

definition stampText :: "string \<Rightarrow> string" where
  "stampText s =
     dateTimeText (substr s 0 4, substr s 5 2, substr s 8 2,
                   substr s 11 2, substr s 14 2, substr s 17 2) @ ''.000Z''"

text \<open>A day string \<open>YYYY-MM-DD\<close> that names a day of the calendar.\<close>

definition dayReal :: "string \<Rightarrow> bool" where
  "dayReal s =
     (1 \<le> numOf (substr s 5 2) \<and> numOf (substr s 5 2) \<le> 12 \<and>
      1 \<le> numOf (substr s 8 2) \<and>
      numOf (substr s 8 2) \<le> daysInMonth (numOf (substr s 0 4)) (numOf (substr s 5 2)))"

text \<open>
  A timestamp as \<open>toISOString\<close> writes it for the years 0..9999:
  \<open>YYYY-MM-DDTHH:MM:SS.mmmZ\<close>, naming a time of the calendar.
\<close>

definition canonicalInstant :: "string \<Rightarrow> bool" where
  "canonicalInstant s = (isUtcInstant s \<and> stampReal s)"

definition instantOf :: "string \<Rightarrow> int" where
  "instantOf s =
     civilTime (numOf (substr s 0 4)) (numOf (substr s 5 2)) (numOf (substr s 8 2))
       (numOf (substr s 11 2)) (numOf (substr s 14 2)) (numOf (substr s 17 2))
       (numOf (substr s 20 3))"

section \<open>Calls that overlap\<close>

text \<open>
  An \<open>async\<close> function runs alone from one \<open>await\<close> to the next, and while it waits for
  the store another request handler may run. A call is the statement it awaits and what
  it does with the answer, or the value it has returned. The store runs a statement in
  one piece: no transaction spans two statements.
\<close>

datatype 'a task =
    Return 'a
  | Await stmt "(error + rows) \<Rightarrow> 'a task"

text \<open>A call that runs with no other between its statements.\<close>

primrec runTask :: "'a task \<Rightarrow> world \<Rightarrow> 'a \<times> world" where
  "runTask (Return x) w = (x, w)"
| "runTask (Await q k) w = (case execute q w of (r, w') \<Rightarrow> runTask (k r) w')"

primrec returned :: "'a task \<Rightarrow> 'a option" where
  "returned (Return x) = Some x"
| "returned (Await q k) = None"

text \<open>The loop over the pins of \<open>computeAttendanceForDay\<close>, statement by statement.\<close>

fun attendanceTask ::
  "host \<Rightarrow> int \<Rightarrow> string \<Rightarrow> string \<Rightarrow> string \<Rightarrow> string list \<Rightarrow> attendance_row list
   \<Rightarrow> (error + attendance_row list) task" where
  "attendanceTask H M dayStr startDt endDt [] results = Return (Inr results)"
| "attendanceTask H M dayStr startDt endDt (p # ps) results =
     Await (SelectPunches p startDt endDt) (\<lambda>r1.
       case r1 of
         Inl e \<Rightarrow> Return (Inl e)
       | Inr punchesResult \<Rightarrow>
           (case punchesOf punchesResult of
              [] \<Rightarrow> attendanceTask H M dayStr startDt endDt ps results
            | p0 # rest \<Rightarrow>
                (let a = attendanceData H M p dayStr p0 (last (p0 # rest))
                 in Await (SelectAttendance p dayStr) (\<lambda>r2.
                      case r2 of
                        Inl e \<Rightarrow> Return (Inl e)
                      | Inr existingResult \<Rightarrow>
                          Await (if attendanceOf existingResult \<noteq> []
                                 then UpdateAttendance a else InsertAttendance a) (\<lambda>r3.
                            case r3 of
                              Inl e \<Rightarrow> Return (Inl e)
                            | Inr _ \<Rightarrow>
                                attendanceTask H M dayStr startDt endDt ps (results @ [a]))))))"

definition computeAttendanceTask ::
  "host \<Rightarrow> int \<Rightarrow> string \<Rightarrow> (error + attendance_row list) task" where
  "computeAttendanceTask H M dayStr =
     (case dayRange H dayStr of
        Inl e \<Rightarrow> Return (Inl e)
      | Inr (startDt, endDt) \<Rightarrow>
          Await (SelectDistinctPins startDt endDt) (\<lambda>r.
            case r of
              Inl e \<Rightarrow> Return (Inl e)
            | Inr pinsResult \<Rightarrow>
                attendanceTask H M dayStr startDt endDt (pinsOf pinsResult) []))"

text \<open>
  Two calls in flight. The schedule says whose statement the store runs next (\<open>True\<close>:
  the first call's); a call that has returned has none.
\<close>

fun interleave ::
  "bool list \<Rightarrow> 'a task \<Rightarrow> 'b task \<Rightarrow> world \<Rightarrow> ('a task \<times> 'b task) \<times> world" where
  "interleave [] a b w = ((a, b), w)"
| "interleave (first # later) a b w =
     (if first
      then (case a of
              Return _ \<Rightarrow> interleave later a b w
            | Await q k \<Rightarrow> (case execute q w of (r, w') \<Rightarrow> interleave later (k r) b w'))
      else (case b of
              Return _ \<Rightarrow> interleave later a b w
            | Await q k \<Rightarrow> (case execute q w of (r, w') \<Rightarrow> interleave later a (k r) w')))"

text \<open>
  A store with two punches of one identity on one day and no attendance row, the record
  of that day, and two calls for the day whose statements alternate.
\<close>

definition twoPunchWorld :: world where
  "twoPunchWorld =
     emptyWorld\<lparr>punch :=
       [punchAt ''A1'' ''2024-03-05T09:00:00.000Z'', punchAt ''A1'' ''2024-03-05T15:00:00.000Z'']\<rparr>"

definition twoPunchDay :: attendance_row where
  "twoPunchDay =
     \<lparr> att_pin = ''A1'', att_day = ''2024-03-05'', first_ts = ''2024-03-05T09:00:00.000Z'',
       last_ts = ''2024-03-05T15:00:00.000Z'', duration_minutes = Some 360,
       att_status = ''PRESENT'' \<rparr>"

definition overlappingCalls ::
  "((error + attendance_row list) task \<times> (error + attendance_row list) task) \<times> world" where
  "overlappingCalls =
     interleave [True, False, True, False, True, False, True, False]
       (computeAttendanceTask (fixedZone 0) 360 ''2024-03-05'')
       (computeAttendanceTask (fixedZone 0) 360 ''2024-03-05'') twoPunchWorld"

section \<open>Lines and timestamps of the strict parser\<close>

lemma splitOn_absent: "c \<notin> set xs \<Longrightarrow> splitOn c xs = [xs]"
  by (induction xs) auto

lemma splitLines_single:
  "CHR 0x0A \<notin> set l \<Longrightarrow> CHR 0x0D \<notin> set l \<Longrightarrow> splitLines l = [l]"
proof -
  assume a: "CHR 0x0A \<notin> set l" and b: "CHR 0x0D \<notin> set l"
  have "map (\<lambda>c. if c = CHR 0x0D then CHR 0x0A else c) l = l"
    using b by (induction l) auto
  then show ?thesis using a by (simp add: splitLines_def splitOn_absent)
qed

lemma parseAttlogText_single:
  "CHR 0x0A \<notin> set l \<Longrightarrow> CHR 0x0D \<notin> set l \<Longrightarrow>
   parseAttlogText H l = (case parseAttlogLine H l of None \<Rightarrow> [] | Some r \<Rightarrow> [r])"
  by (simp add: parseAttlogText_def splitLines_single List.map_filter_simps split: option.splits)

lemma dateTimeText_shape:
  assumes "length y = 4" "length mo = 2" "length d = 2" "length h = 2" "length mi = 2" "length s = 2"
  shows "length (dateTimeText (y, mo, d, h, mi, s)) = 19"
    and "substr (dateTimeText (y, mo, d, h, mi, s)) 0 4 = y"
    and "substr (dateTimeText (y, mo, d, h, mi, s)) 5 2 = mo"
    and "substr (dateTimeText (y, mo, d, h, mi, s)) 8 2 = d"
    and "substr (dateTimeText (y, mo, d, h, mi, s)) 11 2 = h"
    and "substr (dateTimeText (y, mo, d, h, mi, s)) 14 2 = mi"
    and "substr (dateTimeText (y, mo, d, h, mi, s)) 17 2 = s"
    and "dateTimeText (y, mo, d, h, mi, s) ! 4 = CHR ''-''"
    and "dateTimeText (y, mo, d, h, mi, s) ! 7 = CHR ''-''"
    and "dateTimeText (y, mo, d, h, mi, s) ! 10 = CHR ''T''"
    and "dateTimeText (y, mo, d, h, mi, s) ! 13 = CHR '':''"
    and "dateTimeText (y, mo, d, h, mi, s) ! 16 = CHR '':''"
  using assms by (simp_all add: dateTimeText_def substr_def nth_append)

lemma matchFormat_groups:
  assumes "matchFormat sep s = Some m"
  shows "m = (substr s 0 4, substr s 5 2, substr s 8 2, substr s 11 2, substr s 14 2, substr s 17 2)"
    and "length s = 19"
    and "allDigits (substr s 0 4)" "allDigits (substr s 5 2)" "allDigits (substr s 8 2)"
    and "allDigits (substr s 11 2)" "allDigits (substr s 14 2)" "allDigits (substr s 17 2)"
  using assms by (auto simp: matchFormat_def split: if_splits)

lemma newDate_dateTimeText:
  assumes "matchFormat sep s = Some m"
  shows "newDate H (dateTimeText m) =
           (if validFields (numOf (substr s 5 2)) (numOf (substr s 8 2)) (numOf (substr s 11 2))
                 (numOf (substr s 14 2)) (numOf (substr s 17 2)) 0
            then TimeClip (UTC H (civilTime (numOf (substr s 0 4)) (numOf (substr s 5 2))
                   (numOf (substr s 8 2)) (numOf (substr s 11 2)) (numOf (substr s 14 2))
                   (numOf (substr s 17 2)) 0))
            else None)"
proof -
  note g = matchFormat_groups [OF assms]
  have len: "length (substr s 0 4) = 4" "length (substr s 5 2) = 2" "length (substr s 8 2) = 2"
    "length (substr s 11 2) = 2" "length (substr s 14 2) = 2" "length (substr s 17 2) = 2"
    using g(2) by (simp_all add: substr_def)
  note sh = dateTimeText_shape [OF len]
  have loc: "isLocalDateTime (dateTimeText m)"
    unfolding isLocalDateTime_def g(1) sh using g by simp
  show ?thesis
    unfolding newDate_def parseLocalDateTime_def g(1) using loc sh
    by (simp add: g(1) Let_def)
qed

lemma numOf2: "length s = 2 \<Longrightarrow> allDigits s \<Longrightarrow> 0 \<le> numOf s \<and> numOf s \<le> 99"
proof -
  assume l: "length s = 2" and d: "allDigits s"
  from l obtain a b where s: "s = [a, b]"
    by (auto simp: length_Suc_conv numeral_2_eq_2)
  show ?thesis using d unfolding s
    by (simp add: numOf_def allDigits_def isDigit_def digitVal_def)
qed

lemma numOf4: "length s = 4 \<Longrightarrow> allDigits s \<Longrightarrow> 0 \<le> numOf s \<and> numOf s \<le> 9999"
proof -
  assume l: "length s = 4" and d: "allDigits s"
  from l obtain a b c e where s: "s = [a, b, c, e]"
    by (auto simp: length_Suc_conv eval_nat_numeral)
  show ?thesis using d unfolding s
    by (simp add: numOf_def allDigits_def isDigit_def digitVal_def)
qed

lemma int_div_bounds:
  fixes x k :: int
  shows "0 < k \<Longrightarrow> k * (x div k) \<le> x \<and> x < k * (x div k) + k"
  by (metis add.commute mult.commute div_mult_mod_eq le_add_same_cancel1 add_less_cancel_left pos_mod_bound pos_mod_sign)

lemma DayFromYear_bounds:
  assumes "0 \<le> y" "y \<le> 9999"
  shows "- 720000 \<le> DayFromYear y \<and> DayFromYear y \<le> 2940000"
proof -
  define a where "a = (y - 1969) div 4"
  define b where "b = (y - 1901) div 100"
  define c where "c = (y - 1601) div 400"
  have A: "4 * a \<le> y - 1969 \<and> y - 1969 < 4 * a + 4"
    unfolding a_def by (rule int_div_bounds) simp
  have B: "100 * b \<le> y - 1901 \<and> y - 1901 < 100 * b + 100"
    unfolding b_def by (rule int_div_bounds) simp
  have C: "400 * c \<le> y - 1601 \<and> y - 1601 < 400 * c + 400"
    unfolding c_def by (rule int_div_bounds) simp
  have D: "DayFromYear y = 365 * (y - 1970) + a - b + c"
    by (simp add: DayFromYear_def a_def b_def c_def)
  show ?thesis unfolding D using A B C assms by auto
qed

lemma monthStart_bounds: "0 \<le> l \<Longrightarrow> l \<le> 1 \<Longrightarrow> 0 \<le> monthStart l m \<and> monthStart l m \<le> 335"
  by (simp add: monthStart_def)

lemma civilTime_bounds:
  assumes "0 \<le> y" "y \<le> 9999" "validFields mo d h mi s ms" "0 \<le> h" "0 \<le> mi" "0 \<le> s" "0 \<le> ms" "ms \<le> 999"
  shows "\<bar>civilTime y mo d h mi s ms\<bar> \<le> 300000000000000"
proof -
  have l: "0 \<le> leapDay y \<and> leapDay y \<le> 1" by (simp add: leapDay_def)
  note a = DayFromYear_bounds [OF assms(1,2)]
  note b = monthStart_bounds [of "leapDay y" "mo - 1"]
  show ?thesis using a b l assms(3-)
    unfolding civilTime_def MakeDate_def MakeDay_def MakeTime_def msPerDay_def validFields_def
    by auto
qed

lemma stampCivil_bounds:
  assumes "matchFormat sep s = Some m" "stampValid s"
  shows "\<bar>stampCivil s\<bar> \<le> 300000000000000"
proof -
  note g = matchFormat_groups [OF assms(1)]
  have len: "length (substr s 0 4) = 4" "length (substr s 5 2) = 2" "length (substr s 8 2) = 2"
    "length (substr s 11 2) = 2" "length (substr s 14 2) = 2" "length (substr s 17 2) = 2"
    using g(2) by (simp_all add: substr_def)
  note y = numOf4 [OF len(1) g(3)]
  note h = numOf2 [OF len(4) g(6)]
  note mi = numOf2 [OF len(5) g(7)]
  note se = numOf2 [OF len(6) g(8)]
  show ?thesis unfolding stampCivil_def
    using y h mi se assms(2) by (intro civilTime_bounds) (simp_all add: stampValid_def)
qed

lemma parseTimestamp_matched:
  assumes "matchFormats s = Some m"
  shows "parseTimestamp H s = Some (if stampValid s then TimeClip (UTC H (stampCivil s)) else None)"
proof -
  from assms obtain sep where "matchFormat sep s = Some m"
    by (auto simp: matchFormats_def split: option.splits)
  from newDate_dateTimeText [OF this] show ?thesis
    using assms by (simp add: parseTimestamp_def stampValid_def stampCivil_def)
qed

lemma parseAttlogLine_None_iff:
  "parseAttlogLine H l = None \<longleftrightarrow>
     trim l = [] \<or> lineParts (trim l) = None \<or>
     (\<exists>parts. lineParts (trim l) = Some parts \<and>
        (matchFormats (parts ! 1) = None \<or>
         (\<exists>m. matchFormats (parts ! 1) = Some m \<and> newDate H (dateTimeText m) = None)))"
  by (auto simp: parseAttlogLine_def parseTimestamp_def Let_def split: option.splits)

lemma lineParts_None_iff:
  "lineParts line = None \<longleftrightarrow> length (splitOn TAB line) < 2 \<and> length (splitWs line) < 2"
  by (simp add: lineParts_def Let_def)

lemma matchFormats_None_iff:
  "matchFormats s = None \<longleftrightarrow> matchFormat (CHR ''-'') s = None \<and> matchFormat (CHR ''/'') s = None"
  by (simp add: matchFormats_def split: option.splits)

text \<open>
  Claim C5. A line of the strict parser gives no record when it is blank, or has fewer
  than two tokens after the split at tabs and then at runs of white space, or has a second
  token that matches neither format, or matches one but names an Invalid Date; and only
  then. The parser has no error result: the line is passed over.
\<close>

theorem strict_parser_drops_line:
  assumes "CHR 0x0A \<notin> set l" and "CHR 0x0D \<notin> set l"
  shows "parseAttlogText H l = [] \<longleftrightarrow>
           trim l = [] \<or>
           (length (splitOn TAB (trim l)) < 2 \<and> length (splitWs (trim l)) < 2) \<or>
           (\<exists>parts. lineParts (trim l) = Some parts \<and>
              ((matchFormat (CHR ''-'') (parts ! 1) = None \<and>
                matchFormat (CHR ''/'') (parts ! 1) = None) \<or>
               (\<exists>m. matchFormats (parts ! 1) = Some m \<and> newDate H (dateTimeText m) = None)))"
proof -
  have "parseAttlogText H l = [] \<longleftrightarrow> parseAttlogLine H l = None"
    using assms by (simp add: parseAttlogText_single split: option.splits)
  then show ?thesis
    by (simp only: parseAttlogLine_None_iff lineParts_None_iff matchFormats_None_iff)
qed


theorem strict_parser_drops_line_witness:
  "CHR 0x0A \<notin> set unrecognizedLine \<and> CHR 0x0D \<notin> set unrecognizedLine \<and>
   lineParts (trim unrecognizedLine) = Some [''A1001'', ''05-03-2024''] \<and>
   matchFormat (CHR ''-'') ''05-03-2024'' = None \<and>
   matchFormat (CHR ''/'') ''05-03-2024'' = None \<and>
   parseAttlogText (fixedZone 0) unrecognizedLine = []"
proof -
  have a: "CHR 0x0A \<notin> set unrecognizedLine" "CHR 0x0D \<notin> set unrecognizedLine"
    by (simp_all add: unrecognizedLine_def TAB_def)
  have b: "lineParts (trim unrecognizedLine) = Some [''A1001'', ''05-03-2024'']"
    by (simp add: unrecognizedLine_def TAB_def lineParts_def trim_def isWhiteSpace_def)
  have c: "matchFormat (CHR ''-'') ''05-03-2024'' = None" "matchFormat (CHR ''/'') ''05-03-2024'' = None"
    by (simp_all add: matchFormat_def)
  from strict_parser_drops_line [OF a, of "fixedZone 0"] b c
  show ?thesis using a by auto
qed

section \<open>The calendar\<close>

text \<open>Linear bounds of the day number of a year: 400 days of 400 years are 146097.\<close>

lemma DayFromYear_linear:
  "146097 * (y - 1970) - 607 \<le> 400 * DayFromYear y \<and>
   400 * DayFromYear y \<le> 146097 * (y - 1970) + 593"
proof -
  define a where "a = (y - 1969) div 4"
  define b where "b = (y - 1901) div 100"
  define c where "c = (y - 1601) div 400"
  have A: "4 * a \<le> y - 1969 \<and> y - 1969 < 4 * a + 4"
    unfolding a_def by (rule int_div_bounds) simp
  have B: "100 * b \<le> y - 1901 \<and> y - 1901 < 100 * b + 100"
    unfolding b_def by (rule int_div_bounds) simp
  have C: "400 * c \<le> y - 1601 \<and> y - 1601 < 400 * c + 400"
    unfolding c_def by (rule int_div_bounds) simp
  have D: "DayFromYear y = 365 * (y - 1970) + a - b + c"
    by (simp add: DayFromYear_def a_def b_def c_def)
  show ?thesis unfolding D using A B C by auto
qed

lemma mod_shift:
  fixes y :: int
  shows "(y + 1 - 1969) mod 4 = y mod 4" "(y + 1 - 1901) mod 100 = y mod 100"
    "(y + 1 - 1601) mod 400 = y mod 400"
proof -
  have "y + 1 - 1969 = y + 4 * (- 492)" by simp
  then show "(y + 1 - 1969) mod 4 = y mod 4" by (simp only: mod_mult_self2)
  have "y + 1 - 1901 = y + 100 * (- 19)" by simp
  then show "(y + 1 - 1901) mod 100 = y mod 100" by (simp only: mod_mult_self2)
  have "y + 1 - 1601 = y + 400 * (- 4)" by simp
  then show "(y + 1 - 1601) mod 400 = y mod 400" by (simp only: mod_mult_self2)
qed
lemma div_succ:
  fixes x k :: int
  assumes "0 < k"
  shows "(x + 1) div k = x div k + (if (x + 1) mod k = 0 then 1 else 0)"
proof -
  define q where "q = x div k"
  define r where "r = x mod k"
  have x: "x = k * q + r" by (simp add: q_def r_def)
  have r: "0 \<le> r" "r < k" using assms by (simp_all add: r_def)
  show ?thesis
  proof (cases "r + 1 = k")
    case True
    then have "x + 1 = k * (q + 1)" using x by (simp add: algebra_simps)
    then show ?thesis using assms by (simp add: q_def [symmetric])
  next
    case False
    with r have r1: "0 \<le> r + 1" "r + 1 < k" by simp_all
    have e: "x + 1 = k * q + (r + 1)" using x by simp
    have d: "(x + 1) div k = q" unfolding e using r1 assms
      by (simp add: div_pos_pos_trivial)
    have m: "(x + 1) mod k = r + 1" unfolding e using r1 assms
      by (simp add: mod_pos_pos_trivial)
    from d m r show ?thesis by (simp add: q_def [symmetric])
  qed
qed
lemma DayFromYear_step: "DayFromYear (y + 1) = DayFromYear y + 365 + leapDay y"
proof -
  have a: "(y + 1 - 1969) div 4 = (y - 1969) div 4 + (if y mod 4 = 0 then 1 else 0)"
    using div_succ [of 4 "y - 1969"] mod_shift(1) [of y] by (simp add: algebra_simps)
  have b: "(y + 1 - 1901) div 100 = (y - 1901) div 100 + (if y mod 100 = 0 then 1 else 0)"
    using div_succ [of 100 "y - 1901"] mod_shift(2) [of y] by (simp add: algebra_simps)
  have c: "(y + 1 - 1601) div 400 = (y - 1601) div 400 + (if y mod 400 = 0 then 1 else 0)"
    using div_succ [of 400 "y - 1601"] mod_shift(3) [of y] by (simp add: algebra_simps)
  have "(100::int) dvd 400" "(4::int) dvd 100" by simp_all
  then have m: "y mod 400 = 0 \<Longrightarrow> y mod 100 = 0" "y mod 100 = 0 \<Longrightarrow> y mod 4 = 0"
    by (meson dvd_trans mod_0_imp_dvd dvd_imp_mod_0)+
  show ?thesis
    unfolding DayFromYear_def a b c leapDay_def InLeapYear_def using m by auto
qed

lemma DayFromYear_less: "DayFromYear y < DayFromYear (y + 1)"
  by (simp add: DayFromYear_step leapDay_def)

lemma YearFromDay_unique:
  assumes "DayFromYear y \<le> d" "d < DayFromYear (y + 1)"
  shows "YearFromDay d = y"
proof -
  define q where "q = (400 * d) div 146097"
  define e where "e = 1970 + q"
  have Q: "146097 * q \<le> 400 * d \<and> 400 * d < 146097 * q + 146097"
    unfolding q_def by (rule int_div_bounds) simp
  have yfd: "YearFromDay d =
      (if d < DayFromYear e then e - 1 else if DayFromYear (e + 1) \<le> d then e + 1 else e)"
    by (simp add: YearFromDay_def Let_def e_def q_def)
  note l0 = DayFromYear_linear [of y]
  note l1 = DayFromYear_linear [of "y + 1"]
  have lo: "y - 1 \<le> e" using Q l0 assms(1) by (auto simp: e_def)
  have hi: "e \<le> y + 1" using Q l1 assms(2) by (auto simp: e_def)
  then consider "e + 1 = y" | "e = y" | "e = y + 1" using lo by linarith
  then show ?thesis
  proof cases
    case 1
    have "DayFromYear e < DayFromYear (e + 1)" by (rule DayFromYear_less)
    with assms show ?thesis unfolding yfd 1 by simp
  next
    case 2
    with assms show ?thesis unfolding yfd by simp
  next
    case 3
    with assms show ?thesis unfolding yfd by simp
  qed
qed

lemma YearFromDay_range:
  "DayFromYear (YearFromDay d) \<le> d \<and> d < DayFromYear (YearFromDay d + 1)"
proof -
  define q where "q = (400 * d) div 146097"
  have Q: "146097 * q \<le> 400 * d \<and> 400 * d < 146097 * q + 146097"
    unfolding q_def by (rule int_div_bounds) simp
  note l0 = DayFromYear_linear [of "1970 + q - 1"]
  note l2 = DayFromYear_linear [of "1970 + q + 1 + 1"]
  have lo: "DayFromYear (1970 + q - 1) \<le> d" using Q l0 by auto
  have hi: "d < DayFromYear (1970 + q + 1 + 1)" using Q l2 by auto
  show ?thesis
    using lo hi by (auto simp: YearFromDay_def Let_def q_def [symmetric])
qed

lemma div_mod_decomp:
  fixes b q r :: int
  assumes "0 \<le> r" "r < b"
  shows "(q * b + r) div b = q" "(q * b + r) mod b = r"
  using assms by (simp_all add: div_pos_pos_trivial mod_pos_pos_trivial)

lemma monthStart_day_range:
  assumes "1 \<le> mo" "mo \<le> 12" "1 \<le> d" "d \<le> daysInMonth y mo"
  shows "0 \<le> monthStart (leapDay y) (mo - 1) + d - 1"
    and "monthStart (leapDay y) (mo - 1) + d - 1 < 365 + leapDay y"
proof -
  from assms(1,2) have "mo = 1 \<or> mo = 2 \<or> mo = 3 \<or> mo = 4 \<or> mo = 5 \<or> mo = 6 \<or>
      mo = 7 \<or> mo = 8 \<or> mo = 9 \<or> mo = 10 \<or> mo = 11 \<or> mo = 12" by arith
  then consider "mo = 1" | "mo = 2" | "mo = 3" | "mo = 4" | "mo = 5" | "mo = 6"
    | "mo = 7" | "mo = 8" | "mo = 9" | "mo = 10" | "mo = 11" | "mo = 12" by blast
  then have "0 \<le> monthStart (leapDay y) (mo - 1) + d - 1 \<and>
             monthStart (leapDay y) (mo - 1) + d - 1 < 365 + leapDay y"
    using assms(3,4) by cases (auto simp: monthStart_def daysInMonth_def leapDay_def)
  then show "0 \<le> monthStart (leapDay y) (mo - 1) + d - 1"
    and "monthStart (leapDay y) (mo - 1) + d - 1 < 365 + leapDay y" by simp_all
qed

lemma civil_day_fields:
  assumes "1 \<le> mo" "mo \<le> 12" "1 \<le> d" "d \<le> daysInMonth y mo"
  shows "YearFromDay (MakeDay y (mo - 1) d) = y"
    and "MonthFromDay (MakeDay y (mo - 1) d) = mo - 1"
    and "DateFromDay (MakeDay y (mo - 1) d) = d"
proof -
  note k = monthStart_day_range [OF assms]
  show y: "YearFromDay (MakeDay y (mo - 1) d) = y"
    using k by (intro YearFromDay_unique) (simp_all add: MakeDay_def DayFromYear_step)
  from assms(1,2) have "mo = 1 \<or> mo = 2 \<or> mo = 3 \<or> mo = 4 \<or> mo = 5 \<or> mo = 6 \<or>
      mo = 7 \<or> mo = 8 \<or> mo = 9 \<or> mo = 10 \<or> mo = 11 \<or> mo = 12" by arith
  then consider "mo = 1" | "mo = 2" | "mo = 3" | "mo = 4" | "mo = 5" | "mo = 6"
    | "mo = 7" | "mo = 8" | "mo = 9" | "mo = 10" | "mo = 11" | "mo = 12" by blast
  then show m: "MonthFromDay (MakeDay y (mo - 1) d) = mo - 1"
    unfolding MonthFromDay_def y Let_def using assms(3,4)
    by cases (auto simp: MakeDay_def monthStart_def daysInMonth_def leapDay_def)
  show "DateFromDay (MakeDay y (mo - 1) d) = d"
    unfolding DateFromDay_def y m Let_def by (simp add: MakeDay_def)
qed

lemma civil_time_fields:
  assumes "0 \<le> h" "h \<le> 23" "0 \<le> mi" "mi \<le> 59" "0 \<le> s" "s \<le> 59" "0 \<le> ms" "ms \<le> 999"
  shows "Day (MakeDate dy (MakeTime h mi s ms)) = dy"
    and "TimeWithinDay (MakeDate dy (MakeTime h mi s ms)) div 3600000 = h"
    and "TimeWithinDay (MakeDate dy (MakeTime h mi s ms)) div 60000 mod 60 = mi"
    and "TimeWithinDay (MakeDate dy (MakeTime h mi s ms)) div 1000 mod 60 = s"
    and "TimeWithinDay (MakeDate dy (MakeTime h mi s ms)) mod 1000 = ms"
proof -
  let ?w = "MakeTime h mi s ms"
  have w: "0 \<le> ?w" "?w < 86400000" using assms by (simp_all add: MakeTime_def)
  show "Day (MakeDate dy ?w) = dy"
    unfolding Day_def MakeDate_def msPerDay_def using w by (rule div_mod_decomp(1))
  have t: "TimeWithinDay (MakeDate dy ?w) = ?w"
    unfolding TimeWithinDay_def MakeDate_def msPerDay_def using w by (rule div_mod_decomp(2))
  have a: "?w = h * 3600000 + (mi * 60000 + s * 1000 + ms)" by (simp add: MakeTime_def)
  have b: "?w = (h * 60 + mi) * 60000 + (s * 1000 + ms)" by (simp add: MakeTime_def)
  have c: "?w = (h * 3600 + mi * 60 + s) * 1000 + ms" by (simp add: MakeTime_def)
  have "?w div 3600000 = h" unfolding a using assms by (intro div_mod_decomp(1)) simp_all
  then show "TimeWithinDay (MakeDate dy ?w) div 3600000 = h" by (simp only: t)
  have "?w div 60000 = h * 60 + mi" unfolding b using assms by (intro div_mod_decomp(1)) simp_all
  moreover have "(h * 60 + mi) mod 60 = mi" using assms by (intro div_mod_decomp(2)) simp_all
  ultimately show "TimeWithinDay (MakeDate dy ?w) div 60000 mod 60 = mi" by (simp only: t)
  have "?w div 1000 = h * 3600 + mi * 60 + s" unfolding c using assms by (intro div_mod_decomp(1)) simp_all
  moreover have "(h * 3600 + mi * 60 + s) mod 60 = s"
  proof -
    have "h * 3600 + mi * 60 + s = (h * 60 + mi) * 60 + s" by simp
    then show ?thesis using assms by (simp only: div_mod_decomp(2))
  qed
  ultimately show "TimeWithinDay (MakeDate dy ?w) div 1000 mod 60 = s" by (simp only: t)
  have "?w mod 1000 = ms" unfolding c using assms by (intro div_mod_decomp(2)) simp_all
  then show "TimeWithinDay (MakeDate dy ?w) mod 1000 = ms" by (simp only: t)
qed

lemma digit_char:
  assumes "isDigit c"
  shows "char_of (48 + nat (digitVal c)) = c" "0 \<le> digitVal c" "digitVal c \<le> 9"
    "nat (digitVal c) \<le> 9"
proof -
  from assms have r: "48 \<le> (of_char c :: nat)" "(of_char c :: nat) \<le> 57"
    by (simp_all add: isDigit_def)
  then have "48 + nat (digitVal c) = (of_char c :: nat)"
    unfolding digitVal_def by arith
  then show "char_of (48 + nat (digitVal c)) = c" by simp
  from r show "0 \<le> digitVal c" "digitVal c \<le> 9" "nat (digitVal c) \<le> 9"
    unfolding digitVal_def by arith+
qed

lemma numOf_snoc: "numOf (xs @ [c]) = 10 * numOf xs + digitVal c"
  by (simp add: numOf_def)

lemma numOf_nonneg: "allDigits xs \<Longrightarrow> 0 \<le> numOf xs"
proof (induction xs rule: rev_induct)
  case Nil
  then show ?case by (simp add: numOf_def)
next
  case (snoc c xs)
  then have "0 \<le> numOf xs" "isDigit c" by (simp_all add: allDigits_def)
  with digit_char(2) [of c] show ?case by (simp add: numOf_snoc)
qed

lemma pad_numOf: "allDigits s \<Longrightarrow> padNum (length s) (nat (numOf s)) = s"
proof (induction s rule: rev_induct)
  case Nil
  then show ?case by simp
next
  case (snoc c xs)
  then have ax: "allDigits xs" and dc: "isDigit c" by (simp_all add: allDigits_def)
  define a where "a = nat (numOf xs)"
  define b where "b = nat (digitVal c)"
  have b9: "b \<le> 9" using digit_char(4) [OF dc] by (simp add: b_def)
  have v: "nat (numOf (xs @ [c])) = 10 * a + b"
    using numOf_nonneg [OF ax] digit_char(2) [OF dc]
    by (simp add: numOf_snoc a_def b_def nat_add_distrib nat_mult_distrib)
  have dm: "(10 * a + b) div 10 = a" "(10 * a + b) mod 10 = b" "b mod 10 = b" "b div 10 = 0"
    using b9 by simp_all
  have ih: "padNum (length xs) a = xs" unfolding a_def by (rule snoc.IH [OF ax])
  show ?case
    using digit_char(1) [OF dc] by (simp add: v dm ih b_def [symmetric])
qed

lemma pad2_numOf: "length s = 2 \<Longrightarrow> allDigits s \<Longrightarrow> padNum 2 (nat (numOf s)) = s"
  using pad_numOf [of s] by simp

lemma pad4_numOf: "length s = 4 \<Longrightarrow> allDigits s \<Longrightarrow> padNum 4 (nat (numOf s)) = s"
  using pad_numOf [of s] by simp

lemma isoString_civil:
  assumes "0 \<le> y" "y \<le> 9999" "1 \<le> mo" "mo \<le> 12" "1 \<le> d" "d \<le> daysInMonth y mo"
    and "0 \<le> h" "h \<le> 23" "0 \<le> mi" "mi \<le> 59" "0 \<le> s" "s \<le> 59" "0 \<le> ms" "ms \<le> 999"
  shows "isoString (civilTime y mo d h mi s ms) =
           padNum 4 (nat y) @ ''-'' @ padNum 2 (nat mo) @ ''-'' @ padNum 2 (nat d) @ ''T'' @
           padNum 2 (nat h) @ '':'' @ padNum 2 (nat mi) @ '':'' @ padNum 2 (nat s) @ ''.'' @
           padNum 3 (nat ms) @ ''Z''"
proof -
  note df = civil_day_fields [OF assms(3-6)]
  note tf = civil_time_fields [OF assms(7-14), of "MakeDay y (mo - 1) d"]
  have ys: "yearString y = padNum 4 (nat y)" using assms(1,2) by (simp add: yearString_def)
  have mo1: "mo - 1 + 1 = mo" by simp
  show ?thesis
    unfolding isoString_def civilTime_def Let_def tf df ys mo1 ..
qed

lemma isoString_stamp:
  assumes "matchFormat sep s = Some m" "stampReal s"
  shows "isoString (stampCivil s) = stampText s"
proof -
  note g = matchFormat_groups [OF assms(1)]
  have len: "length (substr s 0 4) = 4" "length (substr s 5 2) = 2" "length (substr s 8 2) = 2"
    "length (substr s 11 2) = 2" "length (substr s 14 2) = 2" "length (substr s 17 2) = 2"
    using g(2) by (simp_all add: substr_def)
  note y = numOf4 [OF len(1) g(3)]
  note h = numOf2 [OF len(4) g(6)]
  note mi = numOf2 [OF len(5) g(7)]
  note se = numOf2 [OF len(6) g(8)]
  from assms(2) have r: "1 \<le> numOf (substr s 5 2)" "numOf (substr s 5 2) \<le> 12"
      "1 \<le> numOf (substr s 8 2)"
      "numOf (substr s 8 2) \<le> daysInMonth (numOf (substr s 0 4)) (numOf (substr s 5 2))"
      "numOf (substr s 11 2) \<le> 23" "numOf (substr s 14 2) \<le> 59" "numOf (substr s 17 2) \<le> 59"
    by (simp_all add: stampReal_def)
  have p3: "padNum 3 (nat 0) = ''000''" by code_simp
  have z: "(0::int) \<le> 0" "(0::int) \<le> 999" by simp_all
  have "isoString (stampCivil s) =
      padNum 4 (nat (numOf (substr s 0 4))) @ ''-'' @ padNum 2 (nat (numOf (substr s 5 2))) @ ''-'' @
      padNum 2 (nat (numOf (substr s 8 2))) @ ''T'' @ padNum 2 (nat (numOf (substr s 11 2))) @ '':'' @
      padNum 2 (nat (numOf (substr s 14 2))) @ '':'' @ padNum 2 (nat (numOf (substr s 17 2))) @ ''.'' @
      padNum 3 (nat 0) @ ''Z''"
    unfolding stampCivil_def
    by (rule isoString_civil [OF y [THEN conjunct1] y [THEN conjunct2] r(1) r(2) r(3) r(4)
          h [THEN conjunct1] r(5) mi [THEN conjunct1] r(6) se [THEN conjunct1] r(7) z])
  also have "\<dots> = stampText s"
    unfolding pad4_numOf [OF len(1) g(3)] pad2_numOf [OF len(2) g(4)] pad2_numOf [OF len(3) g(5)]
      pad2_numOf [OF len(4) g(6)] pad2_numOf [OF len(5) g(7)] pad2_numOf [OF len(6) g(8)] p3
    by (simp add: stampText_def dateTimeText_def)
  finally show ?thesis .
qed

lemma stampReal_valid: "matchFormat sep s = Some m \<Longrightarrow> stampReal s \<Longrightarrow> stampValid s"
  by (auto simp: stampReal_def stampValid_def validFields_def daysInMonth_def leapDay_def split: if_splits)

lemma strict_parser_record:
  assumes "CHR 0x0A \<notin> set l" and "CHR 0x0D \<notin> set l"
    and "lineParts (trim l) = Some parts"
    and "matchFormats (parts ! 1) = Some m"
    and "stampValid (parts ! 1)"
    and "\<bar>tzaOfLocal H (stampCivil (parts ! 1))\<bar> \<le> msPerDay"
  shows "parseAttlogText H l =
           [\<lparr> pin = parts ! 0, ts = isoString (UTC H (stampCivil (parts ! 1))),
              status = tokenOrNull parts 2, verify = tokenOrNull parts 3,
              workcode = tokenOrNull parts 4, reserved = tokenOrNull parts 5,
              raw = trim l \<rparr>]"
proof -
  from assms(4) obtain sep where sep: "matchFormat sep (parts ! 1) = Some m"
    by (auto simp: matchFormats_def split: option.splits)
  have "\<bar>stampCivil (parts ! 1)\<bar> \<le> 300000000000000"
    by (rule stampCivil_bounds [OF sep assms(5)])
  with assms(6) have clip: "TimeClip (UTC H (stampCivil (parts ! 1))) = Some (UTC H (stampCivil (parts ! 1)))"
    by (simp add: TimeClip_def UTC_def msPerDay_def)
  have ne: "trim l \<noteq> []"
    using assms(3) by (auto simp: lineParts_def Let_def)
  have "parseAttlogLine H l =
          Some \<lparr> pin = parts ! 0, ts = isoString (UTC H (stampCivil (parts ! 1))),
              status = tokenOrNull parts 2, verify = tokenOrNull parts 3,
              workcode = tokenOrNull parts 4, reserved = tokenOrNull parts 5,
              raw = trim l \<rparr>"
    using ne assms(3,5) clip parseTimestamp_matched [OF assms(4), of H]
    by (simp add: parseAttlogLine_def Let_def)
  then show ?thesis
    using assms(1,2) by (simp add: parseAttlogText_single)
qed

lemma strict_parser_invalid:
  assumes "CHR 0x0A \<notin> set l" and "CHR 0x0D \<notin> set l"
    and "lineParts (trim l) = Some parts"
    and "matchFormats (parts ! 1) = Some m"
    and "\<not> stampValid (parts ! 1)"
  shows "parseAttlogText H l = []"
proof -
  have "parseAttlogLine H l = None"
    using assms(3,5) parseTimestamp_matched [OF assms(4), of H]
    by (simp add: parseAttlogLine_def Let_def)
  then show ?thesis
    using assms(1,2) by (simp add: parseAttlogText_single)
qed

text \<open>
  Claim C1, as amended. Take a line whose second token matches one of the two formats.
  When the Date parser accepts the fields of the token, the line gives exactly one
  record, whose identity is token 0 (on a host whose offset is less than a day); on a
  host whose time zone is UTC the timestamp of the record is the wall-clock time of the
  token as a canonical UTC instant, and for a token that names a time of the calendar
  that is the token itself: its digits, with \<open>-\<close>, \<open>T\<close> and \<open>.000Z\<close>. When the Date parser
  rejects the fields, the line gives no record.
\<close>

theorem strict_parser_keeps_line:
  assumes "CHR 0x0A \<notin> set l" and "CHR 0x0D \<notin> set l"
    and "lineParts (trim l) = Some parts"
    and "matchFormat (CHR ''-'') (parts ! 1) \<noteq> None \<or> matchFormat (CHR ''/'') (parts ! 1) \<noteq> None"
  shows "(stampValid (parts ! 1) \<and> \<bar>tzaOfLocal H (stampCivil (parts ! 1))\<bar> \<le> msPerDay \<longrightarrow>
            (\<exists>t. parseAttlogText H l =
               [\<lparr> pin = parts ! 0, ts = t,
                  status = tokenOrNull parts 2, verify = tokenOrNull parts 3,
                  workcode = tokenOrNull parts 4, reserved = tokenOrNull parts 5,
                  raw = trim l \<rparr>])) \<and>
         (stampValid (parts ! 1) \<and> tzaOfLocal H (stampCivil (parts ! 1)) = 0 \<longrightarrow>
            map ts (parseAttlogText H l) = [isoString (stampCivil (parts ! 1))]) \<and>
         (stampReal (parts ! 1) \<and> tzaOfLocal H (stampCivil (parts ! 1)) = 0 \<longrightarrow>
            map ts (parseAttlogText H l) = [stampText (parts ! 1)]) \<and>
         (\<not> stampValid (parts ! 1) \<longrightarrow> parseAttlogText H l = [])"
proof -
  from assms(4) have "matchFormats (parts ! 1) \<noteq> None"
    by (simp only: matchFormats_None_iff) blast
  then obtain m where m: "matchFormats (parts ! 1) = Some m"
    by blast
  then obtain sep where sep: "matchFormat sep (parts ! 1) = Some m"
    by (auto simp: matchFormats_def split: option.splits)
  note rec = strict_parser_record [OF assms(1,2,3) m]
  have one: "stampValid (parts ! 1) \<and> \<bar>tzaOfLocal H (stampCivil (parts ! 1))\<bar> \<le> msPerDay \<longrightarrow>
            (\<exists>t. parseAttlogText H l =
               [\<lparr> pin = parts ! 0, ts = t,
                  status = tokenOrNull parts 2, verify = tokenOrNull parts 3,
                  workcode = tokenOrNull parts 4, reserved = tokenOrNull parts 5,
                  raw = trim l \<rparr>])"
    using rec by blast
  have utc: "map ts (parseAttlogText H l) = [isoString (stampCivil (parts ! 1))]"
    if v: "stampValid (parts ! 1)" and z: "tzaOfLocal H (stampCivil (parts ! 1)) = 0"
  proof -
    from z have "\<bar>tzaOfLocal H (stampCivil (parts ! 1))\<bar> \<le> msPerDay"
      by (simp add: msPerDay_def)
    from rec [OF v this] z show ?thesis by (simp add: UTC_def)
  qed
  have real: "map ts (parseAttlogText H l) = [stampText (parts ! 1)]"
    if r: "stampReal (parts ! 1)" and z: "tzaOfLocal H (stampCivil (parts ! 1)) = 0"
  proof -
    from isoString_stamp [OF sep r] utc [OF stampReal_valid [OF sep r] z]
    show ?thesis by simp
  qed
  have drop: "\<not> stampValid (parts ! 1) \<longrightarrow> parseAttlogText H l = []"
    using strict_parser_invalid [OF assms(1,2,3) m] by blast
  from utc real show ?thesis
    by (intro conjI impI one [rule_format] drop [rule_format]) blast+
qed

lemma exampleLine_parts:
  "CHR 0x0A \<notin> set exampleLine" "CHR 0x0D \<notin> set exampleLine"
  "lineParts (trim exampleLine) = Some [''A1001'', ''2024-03-05 09:15:30'']"
  by (simp_all add: exampleLine_def TAB_def lineParts_def trim_def isWhiteSpace_def)

lemma exampleStamp:
  "matchFormat (CHR ''-'') ''2024-03-05 09:15:30'' \<noteq> None"
  "stampValid ''2024-03-05 09:15:30''"
  by code_simp+

lemma badMonthLine_parts:
  "CHR 0x0A \<notin> set badMonthLine" "CHR 0x0D \<notin> set badMonthLine"
  "lineParts (trim badMonthLine) = Some [''A1001'', ''2024-13-05 09:15:30'']"
  by (simp_all add: badMonthLine_def TAB_def lineParts_def trim_def isWhiteSpace_def)

lemma badMonthStamp:
  "matchFormat (CHR ''-'') ''2024-13-05 09:15:30'' \<noteq> None"
  "\<not> stampValid ''2024-13-05 09:15:30''"
  by code_simp+

theorem strict_parser_keeps_line_witness:
  "CHR 0x0A \<notin> set exampleLine \<and> CHR 0x0D \<notin> set exampleLine \<and>
   lineParts (trim exampleLine) = Some [''A1001'', ''2024-03-05 09:15:30''] \<and>
   matchFormat (CHR ''-'') ''2024-03-05 09:15:30'' \<noteq> None \<and>
   stampValid ''2024-03-05 09:15:30'' \<and> stampReal ''2024-03-05 09:15:30'' \<and>
   tzaOfLocal (fixedZone 0) (stampCivil ''2024-03-05 09:15:30'') = 0 \<and>
   map pin (parseAttlogText (fixedZone 0) exampleLine) = [''A1001''] \<and>
   map ts (parseAttlogText (fixedZone 0) exampleLine) = [''2024-03-05T09:15:30.000Z''] \<and>
   CHR 0x0A \<notin> set badMonthLine \<and> CHR 0x0D \<notin> set badMonthLine \<and>
   lineParts (trim badMonthLine) = Some [''A1001'', ''2024-13-05 09:15:30''] \<and>
   matchFormat (CHR ''-'') ''2024-13-05 09:15:30'' \<noteq> None \<and>
   \<not> stampValid ''2024-13-05 09:15:30'' \<and>
   parseAttlogText (fixedZone 0) badMonthLine = []"
proof -
  have n1: "[''A1001'', ''2024-03-05 09:15:30''] ! 1 = ''2024-03-05 09:15:30''"
    and n0: "[''A1001'', ''2024-03-05 09:15:30''] ! 0 = ''A1001''"
    and b1: "[''A1001'', ''2024-13-05 09:15:30''] ! 1 = ''2024-13-05 09:15:30''" by simp_all
  have z: "tzaOfLocal (fixedZone 0) (stampCivil ''2024-03-05 09:15:30'') = 0"
    by (simp add: fixedZone_def)
  then have tz: "\<bar>tzaOfLocal (fixedZone 0) (stampCivil ''2024-03-05 09:15:30'')\<bar> \<le> msPerDay"
    by (simp add: msPerDay_def)
  have re: "stampReal ''2024-03-05 09:15:30''" by code_simp
  have tx: "stampText ''2024-03-05 09:15:30'' = ''2024-03-05T09:15:30.000Z''"
    by (simp add: stampText_def dateTimeText_def substr_def)
  have m: "matchFormat (CHR ''-'') ([''A1001'', ''2024-03-05 09:15:30''] ! 1) \<noteq> None \<or>
           matchFormat (CHR ''/'') ([''A1001'', ''2024-03-05 09:15:30''] ! 1) \<noteq> None"
    unfolding n1 using exampleStamp(1) by (rule disjI1)
  have bm: "matchFormat (CHR ''-'') ([''A1001'', ''2024-13-05 09:15:30''] ! 1) \<noteq> None \<or>
           matchFormat (CHR ''/'') ([''A1001'', ''2024-13-05 09:15:30''] ! 1) \<noteq> None"
    unfolding b1 using badMonthStamp(1) by (rule disjI1)
  note t = strict_parser_keeps_line [OF exampleLine_parts(1,2,3) m, of "fixedZone 0", unfolded n1 n0]
  note b = strict_parser_keeps_line [OF badMonthLine_parts(1,2,3) bm, of "fixedZone 0", unfolded b1]
  from t [THEN conjunct1] exampleStamp(2) tz
  obtain t0 where "parseAttlogText (fixedZone 0) exampleLine =
      [\<lparr> pin = ''A1001'', ts = t0,
         status = tokenOrNull [''A1001'', ''2024-03-05 09:15:30''] 2,
         verify = tokenOrNull [''A1001'', ''2024-03-05 09:15:30''] 3,
         workcode = tokenOrNull [''A1001'', ''2024-03-05 09:15:30''] 4,
         reserved = tokenOrNull [''A1001'', ''2024-03-05 09:15:30''] 5,
         raw = trim exampleLine \<rparr>]"
    by blast
  then have p: "map pin (parseAttlogText (fixedZone 0) exampleLine) = [''A1001'']"
    by simp
  from t [THEN conjunct2, THEN conjunct2, THEN conjunct1] re z
  have "map ts (parseAttlogText (fixedZone 0) exampleLine) = [stampText ''2024-03-05 09:15:30'']"
    by blast
  then have s: "map ts (parseAttlogText (fixedZone 0) exampleLine) = [''2024-03-05T09:15:30.000Z'']"
    by (simp only: tx)
  from b [THEN conjunct2, THEN conjunct2, THEN conjunct2] badMonthStamp(2)
  have d: "parseAttlogText (fixedZone 0) badMonthLine = []" by blast
  from exampleLine_parts exampleStamp(1,2) re z p s badMonthLine_parts badMonthStamp d
  show ?thesis by blast
qed

text \<open>
  Claim C1 as it is written fails: a token that matches the first format with month 13
  is an Invalid Date, which the parser passes over, so the line gives no record.
\<close>

theorem strict_parser_claim_counterexample:
  "lineParts (trim badMonthLine) = Some [''A1001'', ''2024-13-05 09:15:30''] \<and>
   matchFormat (CHR ''-'') ''2024-13-05 09:15:30'' \<noteq> None \<and>
   parseAttlogText (fixedZone 0) badMonthLine = []"
  by code_simp

text \<open>
  A token without an offset is read by \<open>new Date\<close> in the time zone of the host: on a
  host five and a half hours east of UTC the line of the example gets 03:45:30 UTC. The
  statement above says nothing about such a host.
\<close>

lemma strict_parser_local_reading:
  "map ts (parseAttlogText (fixedZone 330) exampleLine) = [''2024-03-05T03:45:30.000Z'']"
  by code_simp

section \<open>The range of a day\<close>

lemma dateOnly_text:
  assumes "isDateOnly s"
  shows "s = substr s 0 4 @ ''-'' @ substr s 5 2 @ ''-'' @ substr s 8 2"
proof -
  from assms have l: "length s = 10" and c: "s ! 4 = CHR ''-''" "s ! 7 = CHR ''-''"
    by (simp_all add: isDateOnly_def)
  from l obtain a0 a1 a2 a3 a4 a5 a6 a7 a8 a9 where s: "s = [a0, a1, a2, a3, a4, a5, a6, a7, a8, a9]"
    by (auto simp: length_Suc_conv eval_nat_numeral)
  from c show ?thesis unfolding s by (simp add: substr_def)
qed

lemma pad_zero: "padNum 2 0 = ''00''" "padNum 3 0 = ''000''"
  "padNum 2 23 = ''23''" "padNum 2 59 = ''59''" "padNum 3 999 = ''999''"
  by code_simp+

lemma dayRange_zero_offset:
  assumes "isDateOnly day" "dayReal day"
    and "\<forall>t. tzaOfUTC H t = 0" "\<forall>t. tzaOfLocal H t = 0"
  shows "dayRange H day = Inr (day @ ''T00:00:00.000Z'', day @ ''T23:59:59.999Z'')"
proof -
  define y where "y = numOf (substr day 0 4)"
  define mo where "mo = numOf (substr day 5 2)"
  define d where "d = numOf (substr day 8 2)"
  from assms(1) have len: "length day = 10"
    and dg: "allDigits (substr day 0 4)" "allDigits (substr day 5 2)" "allDigits (substr day 8 2)"
    by (simp_all add: isDateOnly_def)
  have ln: "length (substr day 0 4) = 4" "length (substr day 5 2) = 2" "length (substr day 8 2) = 2"
    using len by (simp_all add: substr_def)
  note yr = numOf4 [OF ln(1) dg(1), folded y_def]
  from assms(2) have r: "1 \<le> mo" "mo \<le> 12" "1 \<le> d" "d \<le> daysInMonth y mo"
    by (simp_all add: dayReal_def y_def mo_def d_def)
  then have d31: "d \<le> 31" by (auto simp: daysInMonth_def leapDay_def split: if_splits)
  define dy where "dy = MakeDay y (mo - 1) d"
  define t0 where "t0 = civilTime y mo d 0 0 0 0"
  define t1 where "t1 = civilTime y mo d 23 59 59 999"
  have v: "validFields mo d 0 0 0 0" "validFields mo d 23 59 59 999"
    using r d31 by (simp_all add: validFields_def)
  have b0: "\<bar>t0\<bar> \<le> 300000000000000" unfolding t0_def
    using yr v(1) by (intro civilTime_bounds) simp_all
  have b1: "\<bar>t1\<bar> \<le> 300000000000000" unfolding t1_def
    using yr v(2) by (intro civilTime_bounds) simp_all
  have nl: "\<not> isLocalDateTime day" using len by (simp add: isLocalDateTime_def)
  have parsed: "newDate H day = Some t0"
    using assms(1) nl v(1) b0
    by (simp add: newDate_def parseDateOnly_def Let_def TimeClip_def t0_def y_def mo_def d_def)
  have t0': "t0 = MakeDate dy (MakeTime 0 0 0 0)" and t1': "t1 = MakeDate dy (MakeTime 23 59 59 999)"
    by (simp_all add: t0_def t1_def civilTime_def dy_def)
  have day0: "Day t0 = dy"
    unfolding t0' by (rule civil_time_fields(1)) simp_all
  have start: "setHours H 0 0 0 0 (Some t0) = Some t0"
    using assms(3,4) b0 by (simp add: setHours_def LocalTime_def UTC_def day0 t0' [symmetric] TimeClip_def Let_def)
  have endd: "setHours H 23 59 59 999 (Some t0) = Some t1"
    using assms(3,4) b1 by (simp add: setHours_def LocalTime_def UTC_def day0 t1' [symmetric] TimeClip_def Let_def)
  have z: "(0::int) \<le> 0" "(0::int) \<le> 23" "(0::int) \<le> 59" "(0::int) \<le> 999" by simp_all
  have p4: "padNum 4 (nat y) = substr day 0 4" unfolding y_def by (rule pad4_numOf [OF ln(1) dg(1)])
  have p2: "padNum 2 (nat mo) = substr day 5 2" "padNum 2 (nat d) = substr day 8 2"
    unfolding mo_def d_def by (rule pad2_numOf [OF ln(2) dg(2)], rule pad2_numOf [OF ln(3) dg(3)])
  note dtext = dateOnly_text [OF assms(1)]
  have i0: "isoString t0 = day @ ''T00:00:00.000Z''"
    unfolding t0_def
      isoString_civil [OF yr [THEN conjunct1] yr [THEN conjunct2] r z(1,2) z(1,3) z(1,3) z(1,4)]
    by (subst dtext) (simp add: p4 p2 pad_zero)
  have z2: "(0::int) \<le> 23" "(23::int) \<le> 23" "(0::int) \<le> 59" "(59::int) \<le> 59" "(0::int) \<le> 999" "(999::int) \<le> 999"
    by simp_all
  have i1: "isoString t1 = day @ ''T23:59:59.999Z''"
    unfolding t1_def
      isoString_civil [OF yr [THEN conjunct1] yr [THEN conjunct2] r z2(1,2) z2(3,4) z2(3,4) z2(5,6)]
    by (subst dtext) (simp add: p4 p2 pad_zero)
  show ?thesis
    by (simp add: dayRange_def Let_def parsed start endd toISOString_def i0 i1)
qed

lemma dayRange_utc_host:
  "dayRange (fixedZone 0) ''2024-03-05'' =
     Inr (''2024-03-05T00:00:00.000Z'', ''2024-03-05T23:59:59.999Z'')"
proof -
  have a: "isDateOnly ''2024-03-05''" "dayReal ''2024-03-05''" by code_simp+
  have z: "\<forall>t. tzaOfUTC (fixedZone 0) t = 0" "\<forall>t. tzaOfLocal (fixedZone 0) t = 0"
    by (simp_all add: fixedZone_def)
  from dayRange_zero_offset [OF a z] show ?thesis by simp
qed

section \<open>Lines of the other tables\<close>

lemma execute_eq:
  "execute q w =
     (if faults w \<noteq> [] \<and> hd (faults w) then (Inl DbError, w\<lparr>faults := tl (faults w), issued := issued w @ [q]\<rparr>)
      else run q (w\<lparr>faults := tl (faults w), issued := issued w @ [q]\<rparr>))"
  by (simp add: execute_def Let_def split: list.splits bool.splits)

lemma execute_InsertPunch:
  assumes "execute (InsertPunch r) w = (res, w1)"
  shows "(res = Inl DbError \<and> punch w1 = punch w) \<or> (res = Inr NoRows \<and> punch w1 = punch w @ [r])"
    and "faults w1 = tl (faults w)"
    and "attendance w1 = attendance w" "devices w1 = devices w" "deviceCache w1 = deviceCache w"
  using assms by (auto simp: execute_eq split: if_splits)

lemma execute_InsertPunch_ok:
  "faults w = [] \<Longrightarrow> \<exists>w1. execute (InsertPunch r) w = (Inr NoRows, w1) \<and> faults w1 = []"
  by (simp add: execute_eq)

lemma trim_prefix: "\<exists>zs. dropWhile isWhiteSpace s = trim s @ zs"
proof -
  let ?ys = "dropWhile isWhiteSpace s"
  have "trim s @ rev (takeWhile isWhiteSpace (rev ?ys)) =
          rev (takeWhile isWhiteSpace (rev ?ys) @ dropWhile isWhiteSpace (rev ?ys))"
    by (simp only: rev_append trim_def)
  also have "\<dots> = ?ys"
    by (simp only: takeWhile_dropWhile_id rev_rev_ident)
  finally show ?thesis by metis
qed

lemma trim_head: "trim s \<noteq> [] \<Longrightarrow> \<not> isWhiteSpace (hd (trim s))"
proof -
  assume ne: "trim s \<noteq> []"
  obtain zs where z: "dropWhile isWhiteSpace s = trim s @ zs"
    using trim_prefix by blast
  with ne have "dropWhile isWhiteSpace s \<noteq> []" by auto
  then have "\<not> isWhiteSpace (hd (dropWhile isWhiteSpace s))" by (rule hd_dropWhile)
  with z ne show ?thesis by simp
qed

lemma splitOn_nonempty: "splitOn c s \<noteq> []"
  by (induction s) (auto split: list.splits)

lemma splitOn_head: "s \<noteq> [] \<Longrightarrow> hd s \<noteq> c \<Longrightarrow> hd (splitOn c s) \<noteq> []"
  by (cases s) (auto split: list.splits)

lemma first_token_nonempty:
  assumes "trim rawLine \<noteq> []"
  shows "hd (splitOn TAB (trim rawLine)) \<noteq> []"
proof -
  have "\<not> isWhiteSpace (hd (trim rawLine))" using assms by (rule trim_head)
  then have "hd (trim rawLine) \<noteq> TAB" by (auto simp: isWhiteSpace_def TAB_def)
  with assms show ?thesis by (rule splitOn_head)
qed

lemma otherLogRow_pin:
  "pin (otherLogRow H now line) =
     (if hd (splitOn TAB line) = [] then UNKNOWN else hd (splitOn TAB line))"
  using splitOn_nonempty [of TAB line]
  by (auto simp: otherLogRow_def Let_def split: list.splits)

text \<open>
Claim C10, as amended. In the loop for the other tables a handled line is trimmed and
  not empty, so its first token at tabs is not empty: the identity stored is that token,
  the default is never taken, and the identity is \<open>UNKNOWN\<close> only when the token itself
  is that word.
\<close>

theorem other_log_identity:
  assumes "trim rawLine \<noteq> []"
  shows "hd (splitOn TAB (trim rawLine)) \<noteq> [] \<and>
         pin (otherLogRow H now (trim rawLine)) = hd (splitOn TAB (trim rawLine)) \<and>
         (pin (otherLogRow H now (trim rawLine)) = UNKNOWN \<longleftrightarrow>
            hd (splitOn TAB (trim rawLine)) = ''UNKNOWN'')"
  using first_token_nonempty [OF assms] by (simp add: otherLogRow_pin UNKNOWN_def)

theorem other_log_identity_witness:
  "trim ''  OP 7 '' \<noteq> [] \<and> hd (splitOn TAB (trim ''  OP 7 '')) \<noteq> [] \<and>
   pin (otherLogRow (fixedZone 0) 0 (trim ''  OP 7 '')) = ''OP 7''"
proof -
  have t: "trim ''  OP 7 '' = ''OP 7''" by (simp add: trim_def isWhiteSpace_def)
  have ne: "trim ''  OP 7 '' \<noteq> []" by (simp add: t)
  have h: "hd (splitOn TAB (trim ''  OP 7 '')) = ''OP 7''" by (simp add: t TAB_def)
  from other_log_identity [OF ne, of "fixedZone 0" 0] show ?thesis using ne h by simp
qed

text \<open>
Claim C10 as it is written fails: the body \<open>UNKNOWN\<close> stores the identity \<open>UNKNOWN\<close>.
\<close>

theorem other_log_identity_counterexample:
  "trim ''UNKNOWN'' \<noteq> [] \<and>
   map pin (punch (snd (postCdata (fixedZone 0) 360 (\<lambda>i. 0) (Some ''OPLOG'') (Some ''UNKNOWN'') emptyWorld)))
     = [''UNKNOWN'']"
  by code_simp

lemma otherLogLoop_punch:
  assumes "otherLogLoop H clock i ls n w = (res, w')"
  shows "\<exists>k. punch w' = punch w @
               take k (otherLogRows H clock (filter (\<lambda>(i, l). trim l \<noteq> []) (enumerate i ls)))"
  using assms
proof (induction ls arbitrary: i n w)
  case Nil
  then show ?case by (simp add: otherLogRows_def)
next
  case (Cons rawLine rest)
  show ?case
  proof (cases "trim rawLine = []")
    case True
    with Cons.prems have "otherLogLoop H clock (Suc i) rest n w = (res, w')"
      by (simp add: Let_def)
    from Cons.IH [OF this] True show ?thesis by simp
  next
    case False
    obtain r w1 where e: "execute (InsertPunch (otherLogRow H (clock i) (trim rawLine))) w = (r, w1)"
      by (cases "execute (InsertPunch (otherLogRow H (clock i) (trim rawLine))) w")
    note c = execute_InsertPunch(1) [OF e]
    show ?thesis
    proof (cases r)
      case (Inl err)
      with Cons.prems False e c have "punch w' = punch w" by (simp add: Let_def)
      then have "punch w' = punch w @ take 0 (otherLogRows H clock (filter (\<lambda>(i, l). trim l \<noteq> []) (enumerate i (rawLine # rest))))"
        by simp
      then show ?thesis by blast
    next
      case (Inr x)
      with Cons.prems False e have "otherLogLoop H clock (Suc i) rest (Suc n) w1 = (res, w')"
        by (simp add: Let_def)
      from Cons.IH [OF this] obtain k where
        k: "punch w' = punch w1 @ take k (otherLogRows H clock (filter (\<lambda>(i, l). trim l \<noteq> []) (enumerate (Suc i) rest)))"
        by blast
      from c Inr have "punch w1 = punch w @ [otherLogRow H (clock i) (trim rawLine)]" by simp
      with k False have "punch w' = punch w @ take (Suc k) (otherLogRows H clock (filter (\<lambda>(i, l). trim l \<noteq> []) (enumerate i (rawLine # rest))))"
        by (simp add: otherLogRows_def)
      then show ?thesis by blast
    qed
  qed
qed

lemma otherLogLoop_done:
  assumes "otherLogLoop H clock i ls n w = (Inr m, w')"
  shows "punch w' = punch w @
               otherLogRows H clock (filter (\<lambda>(i, l). trim l \<noteq> []) (enumerate i ls)) \<and>
         m = n + length (filter (\<lambda>(i, l). trim l \<noteq> []) (enumerate i ls))"
  using assms
proof (induction ls arbitrary: i n w)
  case Nil
  then show ?case by (simp add: otherLogRows_def)
next
  case (Cons rawLine rest)
  show ?case
  proof (cases "trim rawLine = []")
    case True
    with Cons.prems have "otherLogLoop H clock (Suc i) rest n w = (Inr m, w')"
      by (simp add: Let_def)
    from Cons.IH [OF this] True show ?thesis by simp
  next
    case False
    obtain r w1 where e: "execute (InsertPunch (otherLogRow H (clock i) (trim rawLine))) w = (r, w1)"
      by (cases "execute (InsertPunch (otherLogRow H (clock i) (trim rawLine))) w")
    note c = execute_InsertPunch(1) [OF e]
    show ?thesis
    proof (cases r)
      case (Inl err)
      with Cons.prems False e show ?thesis by (simp add: Let_def)
    next
      case (Inr x)
      with Cons.prems False e have "otherLogLoop H clock (Suc i) rest (Suc n) w1 = (Inr m, w')"
        by (simp add: Let_def)
      from Cons.IH [OF this] c Inr False show ?thesis
        by (simp add: otherLogRows_def)
    qed
  qed
qed

lemma otherLogLoop_no_fault:
  assumes "faults w = []"
  shows "\<exists>m w'. otherLogLoop H clock i ls n w = (Inr m, w')"
  using assms
proof (induction ls arbitrary: i n w)
  case Nil
  then show ?case by simp
next
  case (Cons rawLine rest)
  show ?case
  proof (cases "trim rawLine = []")
    case True
    with Cons show ?thesis by (simp add: Let_def)
  next
    case False
    from execute_InsertPunch_ok [OF Cons.prems]
    obtain w1 where e: "execute (InsertPunch (otherLogRow H (clock i) (trim rawLine))) w = (Inr NoRows, w1)"
      and f: "faults w1 = []" by blast
    from Cons.IH [OF f] e False show ?thesis by (simp add: Let_def)
  qed
qed

text \<open>
Claim C6. For a table that is not the attendance log, the rows stored are those of the
  lines with content, in order, one each: after any run the new rows are a prefix of them
  (only a failure of the store ends the loop early), a run that answers with a count has
  stored them all and counts them, and a run without a failure of the store does answer
  so. The row of a line is \<open>otherLogRow\<close>: token 0 at tabs or \<open>UNKNOWN\<close>, and token 1 read as
  a date after its slashes become dashes, or the reading of the clock.
\<close>

theorem other_log_keeps_every_line:
  assumes "\<not> isAttlog table"
    and "postCdata H M clock table (Some rawText) w = (answer, w')"
  shows "(\<exists>k. punch w' = punch w @ take k (otherLogRows H clock (nonBlankLines rawText))) \<and>
         (\<forall>n. answer = OtherDone n \<longrightarrow>
            punch w' = punch w @ otherLogRows H clock (nonBlankLines rawText) \<and>
            n = length (nonBlankLines rawText) \<and>
            length (otherLogRows H clock (nonBlankLines rawText)) = length (nonBlankLines rawText)) \<and>
         (faults w = [] \<and> trim rawText \<noteq> [] \<longrightarrow> answer = OtherDone (length (nonBlankLines rawText)))"
proof (cases "trim rawText = []")
  case True
  with assms have "w' = w" "answer = BadRequest ''empty body''"
    by (simp_all add: postCdata_def)
  then have "punch w' = punch w @ take 0 (otherLogRows H clock (nonBlankLines rawText))"
    by simp
  then show ?thesis using True \<open>answer = BadRequest ''empty body''\<close> by blast
next
  case False
  obtain r w1 where l: "otherLogLoop H clock 0 (splitLines rawText) 0 w = (r, w1)"
    by (cases "otherLogLoop H clock 0 (splitLines rawText) 0 w")
  from assms False l have w': "w' = w1"
    and ans: "answer = (case r of Inl e \<Rightarrow> InternalError | Inr n \<Rightarrow> OtherDone n)"
    by (auto simp: postCdata_def split: sum.splits)
  have a: "\<exists>k. punch w' = punch w @ take k (otherLogRows H clock (nonBlankLines rawText))"
    using otherLogLoop_punch [OF l] by (simp add: w' nonBlankLines_def)
  have b: "\<forall>n. answer = OtherDone n \<longrightarrow>
            punch w' = punch w @ otherLogRows H clock (nonBlankLines rawText) \<and>
            n = length (nonBlankLines rawText) \<and>
            length (otherLogRows H clock (nonBlankLines rawText)) = length (nonBlankLines rawText)"
  proof (intro allI impI)
    fix n assume "answer = OtherDone n"
    with ans have "r = Inr n" by (cases r) auto
    from otherLogLoop_done [OF l [unfolded this]]
    show "punch w' = punch w @ otherLogRows H clock (nonBlankLines rawText) \<and>
            n = length (nonBlankLines rawText) \<and>
            length (otherLogRows H clock (nonBlankLines rawText)) = length (nonBlankLines rawText)"
      by (simp add: w' nonBlankLines_def otherLogRows_def)
  qed
  have c: "faults w = [] \<and> trim rawText \<noteq> [] \<longrightarrow> answer = OtherDone (length (nonBlankLines rawText))"
  proof
    assume "faults w = [] \<and> trim rawText \<noteq> []"
    then have "faults w = []" by simp
    from otherLogLoop_no_fault [OF this, of H clock 0 "splitLines rawText" 0] l
    obtain m where r: "r = Inr m" by auto
    with ans have "answer = OtherDone m" by simp
    with b show "answer = OtherDone (length (nonBlankLines rawText))" by simp
  qed
  from a b c show ?thesis by blast
qed

theorem other_log_keeps_every_line_witness:
  "\<not> isAttlog (Some ''OPLOG'') \<and>
   fst (postCdata (fixedZone 0) 360 secondsClock (Some ''OPLOG'') (Some otherBody) emptyWorld)
     = OtherDone 2 \<and>
   length (nonBlankLines otherBody) = 2 \<and>
   map (\<lambda>r. (pin r, ts r))
     (punch (snd (postCdata (fixedZone 0) 360 secondsClock (Some ''OPLOG'') (Some otherBody) emptyWorld)))
     = [(''x'', ''2024-03-05T00:00:00.000Z''), (''OP7'', ''1970-01-01T00:00:02.000Z'')]"
proof -
  let ?c = "postCdata (fixedZone 0) 360 secondsClock (Some ''OPLOG'') (Some otherBody) emptyWorld"
  have a: "\<not> isAttlog (Some ''OPLOG'')" by code_simp
  have f: "fst ?c = OtherDone 2" by code_simp
  have n: "length (nonBlankLines otherBody) = 2" by code_simp
  have rows: "map (\<lambda>r. (pin r, ts r)) (otherLogRows (fixedZone 0) secondsClock (nonBlankLines otherBody))
     = [(''x'', ''2024-03-05T00:00:00.000Z''), (''OP7'', ''1970-01-01T00:00:02.000Z'')]"
    by code_simp
  have c: "?c = (fst ?c, snd ?c)" by simp
  from other_log_keeps_every_line [OF a c] f
  have "punch (snd ?c) = punch emptyWorld @ otherLogRows (fixedZone 0) secondsClock (nonBlankLines otherBody)"
    by blast
  then show ?thesis using a f n rows by (simp add: emptyWorld_def)
qed

section \<open>Heartbeats and the monitor\<close>

lemma run_frame:
  "issued (snd (run q w)) = issued w" "deviceCache (snd (run q w)) = deviceCache w"
  "faults (snd (run q w)) = faults w"
  by (cases q; simp)+

lemma execute_frame:
  "issued (snd (execute q w)) = issued w @ [q]"
  "deviceCache (snd (execute q w)) = deviceCache w"
  "faults (snd (execute q w)) = tl (faults w)"
  by (simp_all add: execute_eq run_frame)

lemma cacheGet_cacheSet: "cacheGet (cacheSet sn info cache) sn' = (if sn' = sn then Some info else cacheGet cache sn')"
  by (induction cache) (auto simp: cacheGet_def)

lemma keys_cacheSet:
  "cacheGet cache sn \<noteq> None \<Longrightarrow> map fst (cacheSet sn info cache) = map fst cache"
  by (induction cache) (auto simp: cacheGet_def)

text \<open>
Claim C8, as amended. Whatever the request, the state and the failures of the store,
  the heartbeat handler answers with the body \<open>OK\<close>; the status is 200 whenever the
  request carries a serial number that is not empty, and 400 when it carries none.
\<close>

theorem heartbeat_answer:
  "fst (getrequest SN now w) =
     \<lparr> code = (if SN = None \<or> SN = Some [] then 400 else 200), body = ''OK'' \<rparr>"
  by (auto simp: getrequest_def sendOK_def split: option.splits)

theorem heartbeat_answer_witness:
  "fst (getrequest (Some ''SN1'') 5 (emptyWorld\<lparr>faults := [True]\<rparr>)) = \<lparr> code = 200, body = ''OK'' \<rparr> \<and>
   fst (getrequest (Some ''SN1'') 5 (emptyWorld\<lparr>faults := [False, True]\<rparr>)) = \<lparr> code = 200, body = ''OK'' \<rparr> \<and>
   devices (snd (getrequest (Some ''SN1'') 5 (emptyWorld\<lparr>faults := [True]\<rparr>))) = []"
proof -
  have "devices (snd (getrequest (Some ''SN1'') 5 (emptyWorld\<lparr>faults := [True]\<rparr>))) = []"
    by code_simp
  then show ?thesis
    using heartbeat_answer [of "Some ''SN1''" 5 "emptyWorld\<lparr>faults := [True]\<rparr>"]
      heartbeat_answer [of "Some ''SN1''" 5 "emptyWorld\<lparr>faults := [False, True]\<rparr>"]
    by simp
qed

text \<open>
Claim C8 as it is written fails: a request without \<open>SN\<close>, or with an empty one, is
  answered with the status 400.
\<close>

theorem heartbeat_answer_counterexample:
  "code (fst (getrequest None 5 emptyWorld)) = 400 \<and>
   code (fst (getrequest (Some []) 5 emptyWorld)) = 400"
  by (simp add: getrequest_def)

lemma heartbeatCached_issued:
  "issued (heartbeatCached sn now info w) =
     issued w @ (if cstatus info = ''OFFLINE'' then [UpdateDeviceOnline (isoString now) sn] else []) @
       (if lastSeenStale now info then [UpdateDeviceLastSeen (isoString now) sn] else [])"
  by (simp add: heartbeatCached_def Let_def execute_frame lastSeenStale_def)

lemma heartbeatCached_cache:
  "cacheGet (deviceCache (heartbeatCached sn now info w)) sn =
     Some \<lparr> cstatus = (if cstatus info = ''OFFLINE'' then ''ONLINE'' else cstatus info),
            lastSeen = (if lastSeenStale now info then Some (Some now) else lastSeen info),
            lastHeartbeat = Some (Some now) \<rparr>"
  by (simp add: heartbeatCached_def Let_def execute_frame lastSeenStale_def cacheGet_cacheSet)

lemma lastSeenStale_iff:
  "lastSeenStale now info \<longleftrightarrow>
     lastSeen info = None \<or> (\<exists>seen. lastSeen info = Some (Some seen) \<and> now - seen > 10000)"
  by (auto simp: lastSeenStale_def split: option.splits)

lemma getrequest_cached:
  assumes "cacheGet (deviceCache w) sn = Some info" "sn \<noteq> []"
  shows "snd (getrequest (Some sn) now w) = heartbeatCached sn now info w"
  using assms by (simp add: getrequest_def)

lemma newlyIssued_append: "issued w' = issued w @ qs \<Longrightarrow> newlyIssued w w' = qs"
  by (simp add: newlyIssued_def)

text \<open>Once the cached lastSeen lies in the window, later heartbeats in the window write nothing.\<close>

lemma heartbeats_fresh:
  assumes "cacheGet (deviceCache w) sn = Some info" "sn \<noteq> []"
    and "cstatus info \<noteq> ''OFFLINE''" "lastSeen info = Some (Some seen)"
    and "\<forall>t \<in> set nows. t - seen \<le> 10000"
  shows "issued (heartbeats sn nows w) = issued w"
  using assms
proof (induction nows arbitrary: w info)
  case Nil
  then show ?case by simp
next
  case (Cons now later)
  let ?w1 = "heartbeatCached sn now info w"
  have s: "snd (getrequest (Some sn) now w) = ?w1"
    by (rule getrequest_cached [OF Cons.prems(1,2)])
  have fresh: "\<not> lastSeenStale now info"
    using Cons.prems(4,5) by (simp add: lastSeenStale_def)
  have i: "issued ?w1 = issued w"
    using fresh Cons.prems(3) by (simp add: heartbeatCached_issued)
  have c: "cacheGet (deviceCache ?w1) sn =
      Some \<lparr> cstatus = cstatus info, lastSeen = Some (Some seen), lastHeartbeat = Some (Some now) \<rparr>"
    using fresh Cons.prems(3,4) by (simp add: heartbeatCached_cache)
  have "issued (heartbeats sn later ?w1) = issued ?w1"
    using Cons.prems(3,5) by (intro Cons.IH [OF c Cons.prems(2)]) simp_all
  then show ?case using s i by simp
qed

lemma heartbeats_at_most_one:
  assumes "cacheGet (deviceCache w) sn = Some info" "sn \<noteq> []"
    and "cstatus info \<noteq> ''OFFLINE''"
    and "\<forall>t \<in> set nows. \<forall>t' \<in> set nows. t' - t \<le> 10000"
  shows "\<exists>qs. issued (heartbeats sn nows w) = issued w @ qs \<and>
              length (filter (writesLastSeen sn) qs) \<le> 1"
  using assms
proof (induction nows arbitrary: w info)
  case Nil
  then show ?case by simp
next
  case (Cons now later)
  let ?w1 = "heartbeatCached sn now info w"
  let ?info1 = "\<lparr> cstatus = cstatus info,
            lastSeen = (if lastSeenStale now info then Some (Some now) else lastSeen info),
            lastHeartbeat = Some (Some now) \<rparr>"
  have s: "snd (getrequest (Some sn) now w) = ?w1"
    by (rule getrequest_cached [OF Cons.prems(1,2)])
  have c: "cacheGet (deviceCache ?w1) sn = Some ?info1"
    using Cons.prems(3) by (simp add: heartbeatCached_cache)
  show ?case
  proof (cases "lastSeenStale now info")
    case True
    have i: "issued ?w1 = issued w @ [UpdateDeviceLastSeen (isoString now) sn]"
      using True Cons.prems(3) by (simp add: heartbeatCached_issued)
    have "issued (heartbeats sn later ?w1) = issued ?w1"
      using Cons.prems(3,4) True
      by (intro heartbeats_fresh [OF c Cons.prems(2), where seen = now]) simp_all
    with s i have "issued (heartbeats sn (now # later) w) = issued w @ [UpdateDeviceLastSeen (isoString now) sn]"
      by simp
    then show ?thesis by (simp add: writesLastSeen_def)
  next
    case False
    have i: "issued ?w1 = issued w"
      using False Cons.prems(3) by (simp add: heartbeatCached_issued)
    have "\<exists>qs. issued (heartbeats sn later ?w1) = issued ?w1 @ qs \<and>
              length (filter (writesLastSeen sn) qs) \<le> 1"
      using Cons.prems(3,4) by (intro Cons.IH [OF c Cons.prems(2)]) simp_all
    with s i show ?thesis by simp
  qed
qed

lemma heartbeat_one_write:
  assumes "cacheGet (deviceCache w) sn = Some info" and "sn \<noteq> []"
  shows "filter (isLastSeenUpdate sn) (newlyIssued w (snd (getrequest (Some sn) now w))) =
           (if lastSeenStale now info then [UpdateDeviceLastSeen (isoString now) sn] else [])"
    and "map_option lastSeen (cacheGet (deviceCache (snd (getrequest (Some sn) now w))) sn) =
           Some (if lastSeenStale now info then Some (Some now) else lastSeen info)"
proof -
  note s = getrequest_cached [OF assms, of now]
  have n: "newlyIssued w (heartbeatCached sn now info w) =
      (if cstatus info = ''OFFLINE'' then [UpdateDeviceOnline (isoString now) sn] else []) @
       (if lastSeenStale now info then [UpdateDeviceLastSeen (isoString now) sn] else [])"
    by (rule newlyIssued_append) (simp add: heartbeatCached_issued)
  show "filter (isLastSeenUpdate sn) (newlyIssued w (snd (getrequest (Some sn) now w))) =
           (if lastSeenStale now info then [UpdateDeviceLastSeen (isoString now) sn] else [])"
    unfolding s n by (simp add: isLastSeenUpdate_def)
  show "map_option lastSeen (cacheGet (deviceCache (snd (getrequest (Some sn) now w))) sn) =
           Some (if lastSeenStale now info then Some (Some now) else lastSeen info)"
    unfolding s by (simp add: heartbeatCached_cache)
qed

lemma heartbeats_window:
  assumes "cacheGet (deviceCache w) sn = Some info" and "sn \<noteq> []"
    and "cstatus info = ''ONLINE''" and "\<forall>t \<in> set nows. t0 \<le> t \<and> t \<le> t0 + 2000"
  shows "length (filter (writesLastSeen sn) (newlyIssued w (heartbeats sn nows w))) \<le> 1"
proof -
  from assms(3) have on: "cstatus info \<noteq> ''OFFLINE''" by simp
  have win: "\<forall>t \<in> set nows. \<forall>t' \<in> set nows. t' - t \<le> 10000"
  proof (intro ballI)
    fix t t' assume "t \<in> set nows" "t' \<in> set nows"
    with assms(4) have "t0 \<le> t" "t' \<le> t0 + 2000" by auto
    then show "t' - t \<le> 10000" by simp
  qed
  from heartbeats_at_most_one [OF assms(1,2) on win]
  obtain qs where q: "issued (heartbeats sn nows w) = issued w @ qs"
    and l: "length (filter (writesLastSeen sn) qs) \<le> 1" by blast
  from newlyIssued_append [OF q] l show ?thesis by simp
qed

text \<open>
Claim C9. For a device in the cache, a heartbeat sends the update of \<open>last_seen\<close> alone
  exactly when the cached \<open>lastSeen\<close> is \<open>null\<close> or more than 10000 ms before \<open>now\<close>, and
  then the cached \<open>lastSeen\<close> becomes \<open>now\<close> (otherwise it stays). So any heartbeats of a
  device cached as \<open>ONLINE\<close>, all within a window of 2 seconds, send at most one statement
  that writes \<open>last_seen\<close>.
\<close>

theorem heartbeat_last_seen_write:
  assumes "cacheGet (deviceCache w) sn = Some info" and "sn \<noteq> []"
  shows "filter (isLastSeenUpdate sn) (newlyIssued w (snd (getrequest (Some sn) now w))) =
           (if lastSeen info = None \<or> (\<exists>seen. lastSeen info = Some (Some seen) \<and> now - seen > 10000)
            then [UpdateDeviceLastSeen (isoString now) sn] else []) \<and>
         map_option lastSeen (cacheGet (deviceCache (snd (getrequest (Some sn) now w))) sn) =
           Some (if lastSeen info = None \<or> (\<exists>seen. lastSeen info = Some (Some seen) \<and> now - seen > 10000)
                 then Some (Some now) else lastSeen info) \<and>
         (cstatus info = ''ONLINE'' \<and> (\<forall>t \<in> set nows. t0 \<le> t \<and> t \<le> t0 + 2000) \<longrightarrow>
           length (filter (writesLastSeen sn) (newlyIssued w (heartbeats sn nows w))) \<le> 1)"
  unfolding lastSeenStale_iff [symmetric]
  using heartbeat_one_write [OF assms, of now] heartbeats_window [OF assms, of nows t0]
  by simp

theorem heartbeat_last_seen_write_witness:
  "cacheGet (deviceCache (cachedWorld [(''SN1'', staleDevice)])) ''SN1'' = Some staleDevice \<and>
   cstatus staleDevice = ''ONLINE'' \<and> length tenHeartbeats = 10 \<and>
   list_all (\<lambda>t. 100000 \<le> t \<and> t \<le> 100000 + 2000) tenHeartbeats \<and>
   newlyIssued (cachedWorld [(''SN1'', staleDevice)])
      (heartbeats ''SN1'' tenHeartbeats (cachedWorld [(''SN1'', staleDevice)]))
     = [UpdateDeviceLastSeen ''1970-01-01T00:01:41.200Z'' ''SN1''] \<and>
   length (filter (writesLastSeen ''SN1'')
      (newlyIssued (cachedWorld [(''SN1'', staleDevice)])
         (heartbeats ''SN1'' tenHeartbeats (cachedWorld [(''SN1'', staleDevice)])))) \<le> 1"
proof -
  let ?w = "cachedWorld [(''SN1'', staleDevice)]"
  have c: "cacheGet (deviceCache ?w) ''SN1'' = Some staleDevice"
    by (simp add: cachedWorld_def cacheGet_def emptyWorld_def)
  have ne: "''SN1'' \<noteq> []" by simp
  have on: "cstatus staleDevice = ''ONLINE''" by (simp add: staleDevice_def)
  have win: "\<forall>t \<in> set tenHeartbeats. 100000 \<le> t \<and> t \<le> 100000 + 2000"
    by (simp add: tenHeartbeats_def)
  have win': "list_all (\<lambda>t. 100000 \<le> t \<and> t \<le> 100000 + 2000) tenHeartbeats"
    by (simp add: tenHeartbeats_def)
  have run: "newlyIssued ?w (heartbeats ''SN1'' tenHeartbeats ?w)
     = [UpdateDeviceLastSeen ''1970-01-01T00:01:41.200Z'' ''SN1'']"
    by code_simp
  from heartbeat_last_seen_write [OF c ne, of 100000 tenHeartbeats 100000] on win
  have "length (filter (writesLastSeen ''SN1'') (newlyIssued ?w (heartbeats ''SN1'' tenHeartbeats ?w))) \<le> 1"
    by blast
  then show ?thesis using c on win' run by (simp add: tenHeartbeats_def)
qed

lemma scanCache_eq:
  "scanCache now cache =
     (map (\<lambda>(sn, info). (sn, if goesOffline now info then info\<lparr>cstatus := ''OFFLINE''\<rparr> else info)) cache,
      map fst (filter (\<lambda>(sn, info). goesOffline now info) cache))"
  by (induction cache) (auto split: prod.splits)

lemma markOffline_frame:
  "issued (markOffline sns w) = issued w @ map UpdateDeviceOffline sns"
  "deviceCache (markOffline sns w) = deviceCache w"
  by (induction sns arbitrary: w) (simp_all add: execute_frame)

lemma goesOffline_iff:
  "goesOffline now info \<longleftrightarrow>
     cstatus info = ''ONLINE'' \<and> (\<exists>hb. lastHeartbeat info = Some (Some hb) \<and> now - hb > 30000)"
  by (auto simp: goesOffline_def DEVICE_OFFLINE_THRESHOLD_def split: option.splits)

lemma monitor_cache:
  "deviceCache (deviceMonitorRun now w) =
     map (\<lambda>(sn, info). (sn, if goesOffline now info then info\<lparr>cstatus := ''OFFLINE''\<rparr> else info))
       (deviceCache w)"
  by (simp add: deviceMonitorRun_def scanCache_eq markOffline_frame)

lemma monitor_issued:
  "newlyIssued w (deviceMonitorRun now w) =
     map UpdateDeviceOffline (map fst (filter (\<lambda>(sn, info). goesOffline now info) (deviceCache w)))"
  by (rule newlyIssued_append) (simp add: deviceMonitorRun_def scanCache_eq markOffline_frame)

lemma monitor_keys: "map fst (deviceCache (deviceMonitorRun now w)) = map fst (deviceCache w)"
  unfolding monitor_cache by (induction "deviceCache w") (auto split: prod.splits)

lemma monitor_never_online:
  "(sn, info') \<in> set (deviceCache (deviceMonitorRun now w)) \<Longrightarrow> cstatus info' = ''ONLINE''
     \<Longrightarrow> (sn, info') \<in> set (deviceCache w)"
  unfolding monitor_cache by (auto split: if_splits)

text \<open>
Claim C7. One run of the monitor sets to \<open>OFFLINE\<close> exactly the entries that are \<open>ONLINE\<close>
  with a heartbeat more than 30000 ms before \<open>now\<close>, and sends one update to \<open>OFFLINE\<close> for
  each of them, in order, whatever the store does with the others. The keys of the cache
  stay as they are, and an entry that is \<open>ONLINE\<close> afterwards was so before.
\<close>

theorem monitor_run:
  "deviceCache (deviceMonitorRun now w) =
     map (\<lambda>(sn, info). (sn, if goesOffline now info then info\<lparr>cstatus := ''OFFLINE''\<rparr> else info))
       (deviceCache w) \<and>
   newlyIssued w (deviceMonitorRun now w) =
     map UpdateDeviceOffline (map fst (filter (\<lambda>(sn, info). goesOffline now info) (deviceCache w))) \<and>
   (goesOffline now info \<longleftrightarrow>
      cstatus info = ''ONLINE'' \<and> (\<exists>hb. lastHeartbeat info = Some (Some hb) \<and> now - hb > 30000)) \<and>
   map fst (deviceCache (deviceMonitorRun now w)) = map fst (deviceCache w) \<and>
   ((sn, info') \<in> set (deviceCache (deviceMonitorRun now w)) \<and> cstatus info' = ''ONLINE''
      \<longrightarrow> (sn, info') \<in> set (deviceCache w)) \<and>
   (distinct (map fst (deviceCache w)) \<longrightarrow>
      distinct (map fst (filter (\<lambda>(sn, info). goesOffline now info) (deviceCache w))))"
  using monitor_cache [of now w] monitor_issued [of w now] goesOffline_iff [of now info]
    monitor_keys [of now w] monitor_never_online [of sn info' now w]
  by (simp add: distinct_map_filter)

theorem monitor_run_witness:
  "distinct (map fst sweptCache) \<and>
   map (\<lambda>(sn, info). (sn, cstatus info)) (deviceCache (deviceMonitorRun 40000 (cachedWorld sweptCache))) =
     [(''A'', ''ONLINE''), (''B'', ''OFFLINE''), (''C'', ''OFFLINE''), (''D'', ''ONLINE''), (''E'', ''OFFLINE'')] \<and>
   newlyIssued (cachedWorld sweptCache) (deviceMonitorRun 40000 (cachedWorld sweptCache)) =
     [UpdateDeviceOffline ''B'', UpdateDeviceOffline ''E''] \<and>
   newlyIssued (cachedWorld sweptCache\<lparr>faults := [True]\<rparr>)
       (deviceMonitorRun 40000 (cachedWorld sweptCache\<lparr>faults := [True]\<rparr>)) =
     [UpdateDeviceOffline ''B'', UpdateDeviceOffline ''E'']"
proof -
  let ?w = "cachedWorld sweptCache"
  let ?wf = "cachedWorld sweptCache\<lparr>faults := [True]\<rparr>"
  have d: "distinct (map fst sweptCache)" by (simp add: sweptCache_def)
  have g: "map UpdateDeviceOffline (map fst (filter (\<lambda>(sn, info). goesOffline 40000 info) sweptCache))
             = [UpdateDeviceOffline ''B'', UpdateDeviceOffline ''E'']"
    by (simp add: sweptCache_def goesOffline_def DEVICE_OFFLINE_THRESHOLD_def)
  have m: "map (\<lambda>(sn, info). (sn, cstatus info))
             (map (\<lambda>(sn, info). (sn, if goesOffline 40000 info then info\<lparr>cstatus := ''OFFLINE''\<rparr> else info)) sweptCache)
           = [(''A'', ''ONLINE''), (''B'', ''OFFLINE''), (''C'', ''OFFLINE''), (''D'', ''ONLINE''), (''E'', ''OFFLINE'')]"
    by (simp add: sweptCache_def goesOffline_def DEVICE_OFFLINE_THRESHOLD_def)
  have c: "deviceCache ?w = sweptCache" "deviceCache ?wf = sweptCache"
    by (simp_all add: cachedWorld_def emptyWorld_def)
  note r1 = monitor_run [of 40000 ?w, THEN conjunct1, unfolded c]
  note r2 = monitor_run [of 40000 ?w, THEN conjunct2, THEN conjunct1, unfolded c]
  note r3 = monitor_run [of 40000 ?wf, THEN conjunct2, THEN conjunct1, unfolded c]
  show ?thesis unfolding r1 r2 r3 m g using d by simp
qed

section \<open>The order of canonical timestamps\<close>

lemma lex_append:
  fixes a b :: "'a::linorder list"
  shows "length a = length b \<Longrightarrow> (a @ x \<le> b @ y) = (a < b \<or> a = b \<and> x \<le> y)"
  by (induction a b rule: list_induct2) auto

lemma digit_less: "isDigit x \<Longrightarrow> isDigit y \<Longrightarrow> x < y \<Longrightarrow> digitVal x < digitVal y"
  by (simp add: digitVal_def less_char_def)

lemma digits2_less:
  assumes "length a = 2" "length b = 2" "allDigits a" "allDigits b" "a < b"
  shows "numOf a < numOf b"
proof -
  from assms(1) obtain a1 a2 where a: "a = [a1, a2]" by (auto simp: length_Suc_conv numeral_2_eq_2)
  from assms(2) obtain b1 b2 where b: "b = [b1, b2]" by (auto simp: length_Suc_conv numeral_2_eq_2)
  from assms(3,4) have d: "isDigit a1" "isDigit a2" "isDigit b1" "isDigit b2"
    by (simp_all add: a b allDigits_def)
  note r = digit_char(2,3) [OF d(1)] digit_char(2,3) [OF d(2)] digit_char(2,3) [OF d(3)]
    digit_char(2,3) [OF d(4)]
  from assms(5) have "a1 < b1 \<or> a1 = b1 \<and> a2 < b2" by (simp add: a b)
  then have "digitVal a1 < digitVal b1 \<or> digitVal a1 = digitVal b1 \<and> digitVal a2 < digitVal b2"
    using d by (auto dest: digit_less)
  then show ?thesis using r by (auto simp: a b numOf_def)
qed

lemma digits3_less:
  assumes "length a = 3" "length b = 3" "allDigits a" "allDigits b" "a < b"
  shows "numOf a < numOf b"
proof -
  from assms(1) obtain a1 a2 a3 where a: "a = [a1, a2, a3]" by (auto simp: length_Suc_conv numeral_3_eq_3)
  from assms(2) obtain b1 b2 b3 where b: "b = [b1, b2, b3]" by (auto simp: length_Suc_conv numeral_3_eq_3)
  from assms(3,4) have d: "isDigit a1" "isDigit a2" "isDigit a3" "isDigit b1" "isDigit b2" "isDigit b3"
    by (simp_all add: a b allDigits_def)
  note r = digit_char(2,3) [OF d(1)] digit_char(2,3) [OF d(2)] digit_char(2,3) [OF d(3)]
    digit_char(2,3) [OF d(4)] digit_char(2,3) [OF d(5)] digit_char(2,3) [OF d(6)]
  from assms(5) have "a1 < b1 \<or> a1 = b1 \<and> (a2 < b2 \<or> a2 = b2 \<and> a3 < b3)" by (simp add: a b)
  then have "digitVal a1 < digitVal b1 \<or> digitVal a1 = digitVal b1 \<and>
      (digitVal a2 < digitVal b2 \<or> digitVal a2 = digitVal b2 \<and> digitVal a3 < digitVal b3)"
    using d by (auto dest: digit_less)
  then show ?thesis using r by (auto simp: a b numOf_def)
qed

lemma digits4_less:
  assumes "length a = 4" "length b = 4" "allDigits a" "allDigits b" "a < b"
  shows "numOf a < numOf b"
proof -
  from assms(1) obtain a1 a2 a3 a4 where a: "a = [a1, a2, a3, a4]"
    by (auto simp: length_Suc_conv eval_nat_numeral)
  from assms(2) obtain b1 b2 b3 b4 where b: "b = [b1, b2, b3, b4]"
    by (auto simp: length_Suc_conv eval_nat_numeral)
  from assms(3,4) have d: "isDigit a1" "isDigit a2" "isDigit a3" "isDigit a4"
      "isDigit b1" "isDigit b2" "isDigit b3" "isDigit b4"
    by (simp_all add: a b allDigits_def)
  note r = digit_char(2,3) [OF d(1)] digit_char(2,3) [OF d(2)] digit_char(2,3) [OF d(3)]
    digit_char(2,3) [OF d(4)] digit_char(2,3) [OF d(5)] digit_char(2,3) [OF d(6)]
    digit_char(2,3) [OF d(7)] digit_char(2,3) [OF d(8)]
  from assms(5) have "a1 < b1 \<or> a1 = b1 \<and> (a2 < b2 \<or> a2 = b2 \<and> (a3 < b3 \<or> a3 = b3 \<and> a4 < b4))"
    by (simp add: a b)
  then have "digitVal a1 < digitVal b1 \<or> digitVal a1 = digitVal b1 \<and>
      (digitVal a2 < digitVal b2 \<or> digitVal a2 = digitVal b2 \<and>
        (digitVal a3 < digitVal b3 \<or> digitVal a3 = digitVal b3 \<and> digitVal a4 < digitVal b4))"
    using d by (auto dest: digit_less)
  then show ?thesis using r by (auto simp: a b numOf_def)
qed

lemma DayFromYear_mono_nat: "DayFromYear y \<le> DayFromYear (y + int n)"
proof (induction n)
  case 0
  then show ?case by simp
next
  case (Suc n)
  have "DayFromYear (y + int n) < DayFromYear (y + int n + 1)" by (rule DayFromYear_less)
  with Suc show ?case by (simp add: algebra_simps)
qed

lemma DayFromYear_mono: "y \<le> y' \<Longrightarrow> DayFromYear y \<le> DayFromYear y'"
  using DayFromYear_mono_nat [of y "nat (y' - y)"] by simp

text \<open>The day number grows with the date.\<close>

lemma MakeDay_less:
  assumes "1 \<le> mo" "mo \<le> 12" "1 \<le> d" "d \<le> daysInMonth y mo"
    and "1 \<le> mo'" "mo' \<le> 12" "1 \<le> d'" "d' \<le> daysInMonth y' mo'"
    and "y < y' \<or> y = y' \<and> (mo < mo' \<or> mo = mo' \<and> d < d')"
  shows "MakeDay y (mo - 1) d < MakeDay y' (mo' - 1) d'"
proof -
  note k = monthStart_day_range [OF assms(1-4)]
  note k' = monthStart_day_range [OF assms(5-8)]
  from assms(9) consider "y < y'" | "y = y'" "mo < mo'" | "y = y'" "mo = mo'" "d < d'" by blast
  then show ?thesis
  proof cases
    case 1
    then have "DayFromYear (y + 1) \<le> DayFromYear y'" by (intro DayFromYear_mono) simp
    with k k' show ?thesis by (simp add: MakeDay_def DayFromYear_step)
  next
    case 2
    from assms(1,2) have m: "mo = 1 \<or> mo = 2 \<or> mo = 3 \<or> mo = 4 \<or> mo = 5 \<or> mo = 6 \<or>
      mo = 7 \<or> mo = 8 \<or> mo = 9 \<or> mo = 10 \<or> mo = 11 \<or> mo = 12" by arith
    from assms(5,6) have m': "mo' = 1 \<or> mo' = 2 \<or> mo' = 3 \<or> mo' = 4 \<or> mo' = 5 \<or> mo' = 6 \<or>
      mo' = 7 \<or> mo' = 8 \<or> mo' = 9 \<or> mo' = 10 \<or> mo' = 11 \<or> mo' = 12" by arith
    have "monthStart (leapDay y) (mo - 1) + d < monthStart (leapDay y) (mo' - 1) + d'"
      using m m' 2(2) assms(3,4,7)
      by (elim disjE; simp add: monthStart_def daysInMonth_def leapDay_def)
    with 2(1) show ?thesis by (simp add: MakeDay_def)
  next
    case 3
    then show ?thesis by (simp add: MakeDay_def)
  qed
qed

lemma civilTime_mono:
  assumes "1 \<le> mo" "mo \<le> 12" "1 \<le> d" "d \<le> daysInMonth y mo"
    and "1 \<le> mo'" "mo' \<le> 12" "1 \<le> d'" "d' \<le> daysInMonth y' mo'"
    and "0 \<le> h" "h \<le> 23" "0 \<le> mi" "mi \<le> 59" "0 \<le> s" "s \<le> 59" "0 \<le> ms" "ms \<le> 999"
    and "0 \<le> h'" "h' \<le> 23" "0 \<le> mi'" "mi' \<le> 59" "0 \<le> s'" "s' \<le> 59" "0 \<le> ms'" "ms' \<le> 999"
    and "y < y' \<or> y = y' \<and> (mo < mo' \<or> mo = mo' \<and> (d < d' \<or> d = d' \<and>
           (h < h' \<or> h = h' \<and> (mi < mi' \<or> mi = mi' \<and> (s < s' \<or> s = s' \<and> ms \<le> ms')))))"
  shows "civilTime y mo d h mi s ms \<le> civilTime y' mo' d' h' mi' s' ms'"
proof (cases "y = y' \<and> mo = mo' \<and> d = d'")
  case True
  with assms(25) have "h < h' \<or> h = h' \<and> (mi < mi' \<or> mi = mi' \<and> (s < s' \<or> s = s' \<and> ms \<le> ms'))"
    by auto
  then have "MakeTime h mi s ms \<le> MakeTime h' mi' s' ms'"
    using assms(9-24) unfolding MakeTime_def by (elim disjE conjE; simp)
  with True show ?thesis by (simp add: civilTime_def MakeDate_def)
next
  case False
  with assms(25) have "y < y' \<or> y = y' \<and> (mo < mo' \<or> mo = mo' \<and> d < d')" by auto
  from MakeDay_less [OF assms(1-8) this]
  have "MakeDay y (mo - 1) d + 1 \<le> MakeDay y' (mo' - 1) d'" by simp
  moreover have "MakeTime h mi s ms < 86400000" "0 \<le> MakeTime h' mi' s' ms'"
    using assms(9-24) by (simp_all add: MakeTime_def)
  ultimately show ?thesis by (simp add: civilTime_def MakeDate_def msPerDay_def)
qed

lemma drop_group: "drop i s = substr s i n @ drop (i + n) s"
proof -
  have "drop (i + n) s = drop n (drop i s)" by (simp add: add.commute)
  then show ?thesis by (simp only: substr_def append_take_drop_id)
qed

lemma drop_char: "i < length s \<Longrightarrow> drop i s = s ! i # drop (Suc i) s"
  by (simp add: Cons_nth_drop_Suc)

lemma substr_take: "i + n \<le> k \<Longrightarrow> substr (take k s) i n = substr s i n"
  by (simp add: substr_def drop_take min_def)

lemma instant_shape:
  assumes "isUtcInstant s"
  shows "length s = 24"
    and "s ! 4 = CHR ''-''" "s ! 7 = CHR ''-''" "s ! 10 = CHR ''T''" "s ! 13 = CHR '':''"
      "s ! 16 = CHR '':''" "s ! 19 = CHR ''.''" "s ! 23 = CHR ''Z''"
    and "allDigits (substr s 0 4)" "allDigits (substr s 5 2)" "allDigits (substr s 8 2)"
      "allDigits (substr s 11 2)" "allDigits (substr s 14 2)" "allDigits (substr s 17 2)"
      "allDigits (substr s 20 3)"
proof -
  from assms have l: "length s = 24" and loc: "isLocalDateTime (take 19 s)"
    and r: "s ! 19 = CHR ''.''" "allDigits (substr s 20 3)" "s ! 23 = CHR ''Z''"
    by (simp_all add: isUtcInstant_def)
  show "length s = 24" "s ! 19 = CHR ''.''" "s ! 23 = CHR ''Z''" "allDigits (substr s 20 3)"
    by (fact l r)+
  from loc have
    "allDigits (substr (take 19 s) 0 4)" "take 19 s ! 4 = CHR ''-''"
    "allDigits (substr (take 19 s) 5 2)" "take 19 s ! 7 = CHR ''-''"
    "allDigits (substr (take 19 s) 8 2)" "take 19 s ! 10 = CHR ''T''"
    "allDigits (substr (take 19 s) 11 2)" "take 19 s ! 13 = CHR '':''"
    "allDigits (substr (take 19 s) 14 2)" "take 19 s ! 16 = CHR '':''"
    "allDigits (substr (take 19 s) 17 2)"
    unfolding isLocalDateTime_def by blast+
  then show "s ! 4 = CHR ''-''" "s ! 7 = CHR ''-''" "s ! 10 = CHR ''T''" "s ! 13 = CHR '':''"
      "s ! 16 = CHR '':''"
    "allDigits (substr s 0 4)" "allDigits (substr s 5 2)" "allDigits (substr s 8 2)"
      "allDigits (substr s 11 2)" "allDigits (substr s 14 2)" "allDigits (substr s 17 2)"
    by (simp_all add: substr_take)
qed

lemma instant_lengths:
  assumes "isUtcInstant s"
  shows "length (substr s 0 4) = 4" "length (substr s 5 2) = 2" "length (substr s 8 2) = 2"
    "length (substr s 11 2) = 2" "length (substr s 14 2) = 2" "length (substr s 17 2) = 2"
    "length (substr s 20 3) = 3"
  using instant_shape(1) [OF assms] by (simp_all add: substr_def)

lemma instant_text:
  assumes "isUtcInstant s"
  shows "s = substr s 0 4 @ CHR ''-'' # substr s 5 2 @ CHR ''-'' # substr s 8 2 @ CHR ''T'' #
             substr s 11 2 @ CHR '':'' # substr s 14 2 @ CHR '':'' # substr s 17 2 @ CHR ''.'' #
             substr s 20 3 @ ''Z''"
proof -
  note sh = instant_shape [OF assms]
  have d24: "drop 24 s = []" using sh(1) by simp
  have d23: "drop 23 s = ''Z''"
    using drop_char [of 23 s] sh(1,8) d24 by simp
  have d20: "drop 20 s = substr s 20 3 @ ''Z''"
    using drop_group [of 20 s 3] d23 by simp
  have d19: "drop 19 s = CHR ''.'' # substr s 20 3 @ ''Z''"
    using drop_char [of 19 s] sh(1,7) d20 by simp
  have d17: "drop 17 s = substr s 17 2 @ CHR ''.'' # substr s 20 3 @ ''Z''"
    using drop_group [of 17 s 2] d19 by simp
  have d16: "drop 16 s = CHR '':'' # substr s 17 2 @ CHR ''.'' # substr s 20 3 @ ''Z''"
    using drop_char [of 16 s] sh(1,6) d17 by simp
  have d14: "drop 14 s = substr s 14 2 @ CHR '':'' # substr s 17 2 @ CHR ''.'' # substr s 20 3 @ ''Z''"
    using drop_group [of 14 s 2] d16 by simp
  have d13: "drop 13 s = CHR '':'' # substr s 14 2 @ CHR '':'' # substr s 17 2 @ CHR ''.'' #
      substr s 20 3 @ ''Z''"
    using drop_char [of 13 s] sh(1,5) d14 by simp
  have d11: "drop 11 s = substr s 11 2 @ CHR '':'' # substr s 14 2 @ CHR '':'' # substr s 17 2 @
      CHR ''.'' # substr s 20 3 @ ''Z''"
    using drop_group [of 11 s 2] d13 by simp
  have d10: "drop 10 s = CHR ''T'' # substr s 11 2 @ CHR '':'' # substr s 14 2 @ CHR '':'' #
      substr s 17 2 @ CHR ''.'' # substr s 20 3 @ ''Z''"
    using drop_char [of 10 s] sh(1,4) d11 by simp
  have d8: "drop 8 s = substr s 8 2 @ CHR ''T'' # substr s 11 2 @ CHR '':'' # substr s 14 2 @
      CHR '':'' # substr s 17 2 @ CHR ''.'' # substr s 20 3 @ ''Z''"
    using drop_group [of 8 s 2] d10 by simp
  have d7: "drop 7 s = CHR ''-'' # substr s 8 2 @ CHR ''T'' # substr s 11 2 @ CHR '':'' #
      substr s 14 2 @ CHR '':'' # substr s 17 2 @ CHR ''.'' # substr s 20 3 @ ''Z''"
    using drop_char [of 7 s] sh(1,3) d8 by simp
  have d5: "drop 5 s = substr s 5 2 @ CHR ''-'' # substr s 8 2 @ CHR ''T'' # substr s 11 2 @
      CHR '':'' # substr s 14 2 @ CHR '':'' # substr s 17 2 @ CHR ''.'' # substr s 20 3 @ ''Z''"
    using drop_group [of 5 s 2] d7 by simp
  have d4: "drop 4 s = CHR ''-'' # substr s 5 2 @ CHR ''-'' # substr s 8 2 @ CHR ''T'' #
      substr s 11 2 @ CHR '':'' # substr s 14 2 @ CHR '':'' # substr s 17 2 @ CHR ''.'' #
      substr s 20 3 @ ''Z''"
    using drop_char [of 4 s] sh(1,2) d5 by simp
  show ?thesis using drop_group [of 0 s 4] d4 by simp
qed

lemma instant_fields:
  assumes "canonicalInstant s"
  shows "1 \<le> numOf (substr s 5 2)" "numOf (substr s 5 2) \<le> 12" "1 \<le> numOf (substr s 8 2)"
    "numOf (substr s 8 2) \<le> daysInMonth (numOf (substr s 0 4)) (numOf (substr s 5 2))"
    "0 \<le> numOf (substr s 11 2)" "numOf (substr s 11 2) \<le> 23"
    "0 \<le> numOf (substr s 14 2)" "numOf (substr s 14 2) \<le> 59"
    "0 \<le> numOf (substr s 17 2)" "numOf (substr s 17 2) \<le> 59"
    "0 \<le> numOf (substr s 20 3)" "numOf (substr s 20 3) \<le> 999"
    "0 \<le> numOf (substr s 0 4)" "numOf (substr s 0 4) \<le> 9999"
proof -
  from assms have u: "isUtcInstant s" and r: "stampReal s" by (simp_all add: canonicalInstant_def)
  note sh = instant_shape [OF u] and ln = instant_lengths [OF u]
  from r show "1 \<le> numOf (substr s 5 2)" "numOf (substr s 5 2) \<le> 12" "1 \<le> numOf (substr s 8 2)"
    "numOf (substr s 8 2) \<le> daysInMonth (numOf (substr s 0 4)) (numOf (substr s 5 2))"
    "numOf (substr s 11 2) \<le> 23" "numOf (substr s 14 2) \<le> 59" "numOf (substr s 17 2) \<le> 59"
    by (simp_all add: stampReal_def)
  show "0 \<le> numOf (substr s 11 2)" "0 \<le> numOf (substr s 14 2)" "0 \<le> numOf (substr s 17 2)"
    "0 \<le> numOf (substr s 20 3)" "0 \<le> numOf (substr s 0 4)"
    using sh by (simp_all add: numOf_nonneg)
  show "numOf (substr s 0 4) \<le> 9999" using numOf4 [OF ln(1) sh(9)] by simp
  from ln(7) obtain a b c where g: "substr s 20 3 = [a, b, c]"
    by (auto simp: length_Suc_conv numeral_3_eq_3)
  with sh(15) have d: "isDigit a" "isDigit b" "isDigit c" by (simp_all add: allDigits_def)
  show "numOf (substr s 20 3) \<le> 999"
    using digit_char(3) [OF d(1)] digit_char(3) [OF d(2)] digit_char(3) [OF d(3)]
    by (simp add: g numOf_def)
qed

lemma instant_mono:
  assumes "canonicalInstant s" "canonicalInstant s'" "s \<le> s'"
  shows "instantOf s \<le> instantOf s'"
proof -
  from assms(1,2) have u: "isUtcInstant s" "isUtcInstant s'" by (simp_all add: canonicalInstant_def)
  note ln = instant_lengths [OF u(1)] and ln' = instant_lengths [OF u(2)]
  note sh = instant_shape [OF u(1)] and sh' = instant_shape [OF u(2)]
  note f = instant_fields [OF assms(1)] and f' = instant_fields [OF assms(2)]
  let ?g1 = "substr s 0 4" and ?g2 = "substr s 5 2" and ?g3 = "substr s 8 2"
    and ?g4 = "substr s 11 2" and ?g5 = "substr s 14 2" and ?g6 = "substr s 17 2"
    and ?g7 = "substr s 20 3"
  let ?h1 = "substr s' 0 4" and ?h2 = "substr s' 5 2" and ?h3 = "substr s' 8 2"
    and ?h4 = "substr s' 11 2" and ?h5 = "substr s' 14 2" and ?h6 = "substr s' 17 2"
    and ?h7 = "substr s' 20 3"
  have le: "?g1 @ CHR ''-'' # ?g2 @ CHR ''-'' # ?g3 @ CHR ''T'' # ?g4 @ CHR '':'' # ?g5 @
              CHR '':'' # ?g6 @ CHR ''.'' # ?g7 @ ''Z''
            \<le> ?h1 @ CHR ''-'' # ?h2 @ CHR ''-'' # ?h3 @ CHR ''T'' # ?h4 @ CHR '':'' # ?h5 @
              CHR '':'' # ?h6 @ CHR ''.'' # ?h7 @ ''Z''"
    using assms(3) instant_text [OF u(1)] instant_text [OF u(2)] by simp
  have e: "length ?g1 = length ?h1" "length ?g2 = length ?h2" "length ?g3 = length ?h3"
    "length ?g4 = length ?h4" "length ?g5 = length ?h5" "length ?g6 = length ?h6"
    "length ?g7 = length ?h7"
    using ln ln' by simp_all
  have G: "?g1 < ?h1 \<or> ?g1 = ?h1 \<and> (?g2 < ?h2 \<or> ?g2 = ?h2 \<and> (?g3 < ?h3 \<or> ?g3 = ?h3 \<and>
           (?g4 < ?h4 \<or> ?g4 = ?h4 \<and> (?g5 < ?h5 \<or> ?g5 = ?h5 \<and> (?g6 < ?h6 \<or> ?g6 = ?h6 \<and>
           (?g7 < ?h7 \<or> ?g7 = ?h7))))))"
    using le
    by (simp only: lex_append [OF e(1)] lex_append [OF e(2)] lex_append [OF e(3)]
          lex_append [OF e(4)] lex_append [OF e(5)] lex_append [OF e(6)] lex_append [OF e(7)]
          Cons_le_Cons less_irrefl simp_thms order_refl)
  have L: "?g1 < ?h1 \<Longrightarrow> numOf ?g1 < numOf ?h1" "?g2 < ?h2 \<Longrightarrow> numOf ?g2 < numOf ?h2"
    "?g3 < ?h3 \<Longrightarrow> numOf ?g3 < numOf ?h3" "?g4 < ?h4 \<Longrightarrow> numOf ?g4 < numOf ?h4"
    "?g5 < ?h5 \<Longrightarrow> numOf ?g5 < numOf ?h5" "?g6 < ?h6 \<Longrightarrow> numOf ?g6 < numOf ?h6"
    "?g7 < ?h7 \<Longrightarrow> numOf ?g7 < numOf ?h7"
    using digits4_less [OF ln(1) ln'(1) sh(9) sh'(9)] digits2_less [OF ln(2) ln'(2) sh(10) sh'(10)]
      digits2_less [OF ln(3) ln'(3) sh(11) sh'(11)] digits2_less [OF ln(4) ln'(4) sh(12) sh'(12)]
      digits2_less [OF ln(5) ln'(5) sh(13) sh'(13)] digits2_less [OF ln(6) ln'(6) sh(14) sh'(14)]
      digits3_less [OF ln(7) ln'(7) sh(15) sh'(15)]
    by blast+
  have N: "numOf ?g1 < numOf ?h1 \<or> numOf ?g1 = numOf ?h1 \<and>
      (numOf ?g2 < numOf ?h2 \<or> numOf ?g2 = numOf ?h2 \<and>
      (numOf ?g3 < numOf ?h3 \<or> numOf ?g3 = numOf ?h3 \<and>
      (numOf ?g4 < numOf ?h4 \<or> numOf ?g4 = numOf ?h4 \<and>
      (numOf ?g5 < numOf ?h5 \<or> numOf ?g5 = numOf ?h5 \<and>
      (numOf ?g6 < numOf ?h6 \<or> numOf ?g6 = numOf ?h6 \<and> numOf ?g7 \<le> numOf ?h7)))))"
    using G L by (metis order_refl less_imp_le)
  show ?thesis
    unfolding instantOf_def
    by (rule civilTime_mono [OF f(1-4) f'(1-4) f(5-12) f'(5-12) N])
qed

lemma newDate_instant:
  assumes "canonicalInstant s"
  shows "newDate H s = Some (instantOf s)"
proof -
  from assms have u: "isUtcInstant s" by (simp add: canonicalInstant_def)
  note f = instant_fields [OF assms]
  have len: "length s = 24" using u by (simp add: isUtcInstant_def)
  have n: "\<not> isLocalDateTime s" "\<not> isDateOnly s"
    using len by (simp_all add: isLocalDateTime_def isDateOnly_def)
  have "daysInMonth (numOf (substr s 0 4)) (numOf (substr s 5 2)) \<le> 31"
    by (simp add: daysInMonth_def leapDay_def)
  with f have v: "validFields (numOf (substr s 5 2)) (numOf (substr s 8 2)) (numOf (substr s 11 2))
      (numOf (substr s 14 2)) (numOf (substr s 17 2)) (numOf (substr s 20 3))"
    by (simp add: validFields_def)
  have "\<bar>instantOf s\<bar> \<le> 300000000000000"
    unfolding instantOf_def by (rule civilTime_bounds [OF f(13,14) v f(5,7,9,11,12)])
  then have "TimeClip (instantOf s) = Some (instantOf s)" by (simp add: TimeClip_def)
  then show ?thesis
    using u v n by (simp add: newDate_def parseUtcInstant_def Let_def instantOf_def)
qed

lemma minutes_nonneg:
  assumes "canonicalInstant s" "canonicalInstant s'" "s \<le> s'"
  shows "minutesBetween (newDate H s) (newDate H s') = Some ((instantOf s' - instantOf s) div 60000)"
    and "0 \<le> (instantOf s' - instantOf s) div 60000"
  using instant_mono [OF assms] newDate_instant [OF assms(1)] newDate_instant [OF assms(2)]
  by (simp_all add: minutesBetween_def)

section \<open>Attendance of a day\<close>

lemma execute_SelectPunches:
  assumes "execute (SelectPunches p s e) w = (res, w1)"
  shows "punch w1 = punch w" "attendance w1 = attendance w" "faults w1 = tl (faults w)"
    and "res = Inl DbError \<or> res = Inr (PunchRows (punchesFor p s e (punch w)))"
    and "faults w = [] \<longrightarrow> res = Inr (PunchRows (punchesFor p s e (punch w)))"
  using assms by (auto simp: execute_eq split: if_splits)

lemma execute_SelectAttendance:
  assumes "execute (SelectAttendance p d) w = (res, w1)"
  shows "punch w1 = punch w" "attendance w1 = attendance w" "faults w1 = tl (faults w)"
    and "res = Inl DbError \<or> res = Inr (AttendanceRows (filter (sameKey p d) (attendance w)))"
    and "faults w = [] \<longrightarrow> res = Inr (AttendanceRows (filter (sameKey p d) (attendance w)))"
  using assms by (auto simp: execute_eq split: if_splits)

lemma execute_UpdateAttendance:
  assumes "execute (UpdateAttendance a) w = (res, w1)"
  shows "punch w1 = punch w" "faults w1 = tl (faults w)"
    and "(res = Inl DbError \<and> attendance w1 = attendance w) \<or>
         (res = Inr NoRows \<and> attendance w1 = map (overwrite a) (attendance w))"
    and "faults w = [] \<longrightarrow> res = Inr NoRows"
  using assms by (auto simp: execute_eq split: if_splits)

lemma execute_InsertAttendance:
  assumes "execute (InsertAttendance a) w = (res, w1)"
  shows "punch w1 = punch w" "faults w1 = tl (faults w)"
    and "(res = Inl DbError \<and> attendance w1 = attendance w) \<or>
         (res = Inr NoRows \<and> attendance w1 = attendance w @ [a])"
    and "faults w = [] \<longrightarrow> res = Inr NoRows"
  using assms by (auto simp: execute_eq split: if_splits)

lemma execute_SelectDistinctPins:
  assumes "execute (SelectDistinctPins s e) w = (res, w1)"
  shows "punch w1 = punch w" "attendance w1 = attendance w" "faults w1 = tl (faults w)"
    and "res = Inl DbError \<or> res = Inr (PinRows (pinsBetween s e (punch w)))"
    and "faults w = [] \<longrightarrow> res = Inr (PinRows (pinsBetween s e (punch w)))"
  using assms by (auto simp: execute_eq split: if_splits)

text \<open>The write of the loop for a record: the upsert, or nothing when the store fails.\<close>

lemma execute_upsert:
  assumes "execute (if filter (sameKey (att_pin a) (att_day a)) tbl \<noteq> []
                    then UpdateAttendance a else InsertAttendance a) w = (res, w1)"
    and "attendance w = tbl"
  shows "punch w1 = punch w" "faults w1 = tl (faults w)"
    and "(res = Inl DbError \<and> attendance w1 = attendance w) \<or>
         (res = Inr NoRows \<and> attendance w1 = upsert a (attendance w))"
    and "faults w = [] \<longrightarrow> res = Inr NoRows"
proof -
  show "punch w1 = punch w" "faults w1 = tl (faults w)"
    using assms(1) execute_UpdateAttendance(1,2) execute_InsertAttendance(1,2)
    by (auto split: if_splits)
  show "(res = Inl DbError \<and> attendance w1 = attendance w) \<or>
         (res = Inr NoRows \<and> attendance w1 = upsert a (attendance w))"
    using assms execute_UpdateAttendance(3) [of a w res w1] execute_InsertAttendance(3) [of a w res w1]
    by (auto simp: upsert_def split: if_splits)
  show "faults w = [] \<longrightarrow> res = Inr NoRows"
    using assms(1) execute_UpdateAttendance(4) [of a w res w1] execute_InsertAttendance(4) [of a w res w1]
    by (auto split: if_splits)
qed

text \<open>One turn of the loop, for the cases of its three statements.\<close>

lemma attendanceLoop_step:
  assumes "attendanceLoop H M d s e (p # ps) results w = (out, w')"
  shows "(out = Inl DbError \<and> punch w' = punch w \<and> attendance w' = attendance w \<and> faults w \<noteq> []) \<or>
         (\<exists>w1. dayRecord H M d s e (punch w) p = None \<and> punch w1 = punch w \<and>
               attendance w1 = attendance w \<and> faults w1 = tl (faults w) \<and>
               attendanceLoop H M d s e ps results w1 = (out, w')) \<or>
         (\<exists>a w3. dayRecord H M d s e (punch w) p = Some a \<and> punch w3 = punch w \<and>
               attendance w3 = upsert a (attendance w) \<and> faults w3 = tl (tl (tl (faults w))) \<and>
               attendanceLoop H M d s e ps (results @ [a]) w3 = (out, w'))"
proof -
  obtain r1 w1 where e1: "execute (SelectPunches p s e) w = (r1, w1)"
    by (cases "execute (SelectPunches p s e) w")
  note f1 = execute_SelectPunches [OF e1]
  show ?thesis
  proof (cases r1)
    case (Inl err)
    with assms e1 f1 show ?thesis by auto
  next
    case (Inr rows1)
    with f1(4) have rows1: "rows1 = PunchRows (punchesFor p s e (punch w))" by simp
    show ?thesis
    proof (cases "punchesFor p s e (punch w)")
      case Nil
      with assms e1 Inr rows1 f1 show ?thesis
        by (auto simp: punchesOf_def dayRecord_def)
    next
      case (Cons p0 rest)
      define a where "a = attendanceData H M p d p0 (last (p0 # rest))"
      have dr: "dayRecord H M d s e (punch w) p = Some a"
        using Cons by (simp only: dayRecord_def list.case a_def)
      have key: "att_pin a = p" "att_day a = d"
        by (simp_all add: a_def attendanceData_def Let_def)
      obtain r2 w2 where e2: "execute (SelectAttendance p d) w1 = (r2, w2)"
        by (cases "execute (SelectAttendance p d) w1")
      note f2 = execute_SelectAttendance [OF e2]
      have unf: "attendanceLoop H M d s e (p # ps) results w =
          (case r2 of Inl err \<Rightarrow> (Inl err, w2)
           | Inr existingResult \<Rightarrow>
               (case execute (if attendanceOf existingResult \<noteq> []
                              then UpdateAttendance a else InsertAttendance a) w2 of
                  (Inl err, w3) \<Rightarrow> (Inl err, w3)
                | (Inr x, w3) \<Rightarrow> attendanceLoop H M d s e ps (results @ [a]) w3))"
        by (simp only: attendanceLoop.simps e1 Inr rows1 prod.case sum.case punchesOf_def
              rows.case Cons list.case Let_def e2 a_def)
      show ?thesis
      proof (cases r2)
        case (Inl err)
        with unf assms f1 f2 show ?thesis by auto
      next
        case r2: (Inr rows2)
        with f2(4) f1(2) have rows2: "rows2 = AttendanceRows (filter (sameKey p d) (attendance w))"
          by simp
        obtain r3 w3 where e3: "execute (if filter (sameKey (att_pin a) (att_day a)) (attendance w) \<noteq> []
                    then UpdateAttendance a else InsertAttendance a) w2 = (r3, w3)"
          by (cases "execute (if filter (sameKey (att_pin a) (att_day a)) (attendance w) \<noteq> []
                    then UpdateAttendance a else InsertAttendance a) w2")
        have t2: "attendance w2 = attendance w" using f1(2) f2(2) by simp
        note f3 = execute_upsert [OF e3 t2]
        have step: "attendanceLoop H M d s e (p # ps) results w =
            (case r3 of Inl err \<Rightarrow> (Inl err, w3)
             | Inr x \<Rightarrow> attendanceLoop H M d s e ps (results @ [a]) w3)"
          unfolding unf r2 rows2 using e3
          by (simp add: attendanceOf_def key split: sum.splits)
        show ?thesis
        proof (cases r3)
          case (Inl err)
          with step assms f3 f1 f2 show ?thesis by auto
        next
          case (Inr x)
          with step assms have "attendanceLoop H M d s e ps (results @ [a]) w3 = (out, w')" by simp
          moreover from f3 Inr t2 have "attendance w3 = upsert a (attendance w)" by auto
          moreover from f3 f2 f1 have "punch w3 = punch w" "faults w3 = tl (tl (tl (faults w)))" by simp_all
          ultimately show ?thesis using dr by blast
        qed
      qed
    qed
  qed
qed

lemma dayRecords_Cons:
  "dayRecords H M d s e tbl (p # ps) =
     (case dayRecord H M d s e tbl p of None \<Rightarrow> dayRecords H M d s e tbl ps
      | Some a \<Rightarrow> a # dayRecords H M d s e tbl ps)"
  by (simp add: dayRecords_def List.map_filter_simps split: option.splits)

lemma dayRecords_Nil: "dayRecords H M d s e tbl [] = []"
  by (simp add: dayRecords_def List.map_filter_simps)

lemma attendanceLoop_outcome:
  assumes "attendanceLoop H M d s e ps results w = (out, w')"
  shows "punch w' = punch w \<and>
         (\<exists>k. attendance w' = fold upsert (dayRecords H M d s e (punch w) (take k ps)) (attendance w)) \<and>
         (\<forall>rs. out = Inr rs \<longrightarrow>
            rs = results @ dayRecords H M d s e (punch w) ps \<and>
            attendance w' = fold upsert (dayRecords H M d s e (punch w) ps) (attendance w))"
  using assms
proof (induction ps arbitrary: results w)
  case Nil
  then show ?case by (auto simp: dayRecords_Nil)
next
  case (Cons p ps)
  let ?R = "dayRecords H M d s e (punch w)"
  from attendanceLoop_step [OF Cons.prems]
  consider
    (err) "out = Inl DbError" "punch w' = punch w" "attendance w' = attendance w"
  | (skip) w1 where "dayRecord H M d s e (punch w) p = None" "punch w1 = punch w"
      "attendance w1 = attendance w" "attendanceLoop H M d s e ps results w1 = (out, w')"
  | (rec) a w3 where "dayRecord H M d s e (punch w) p = Some a" "punch w3 = punch w"
      "attendance w3 = upsert a (attendance w)"
      "attendanceLoop H M d s e ps (results @ [a]) w3 = (out, w')"
    by blast
  then show ?case
  proof cases
    case err
    then have "attendance w' = fold upsert (?R (take 0 (p # ps))) (attendance w)"
      by (simp add: dayRecords_Nil)
    then have "\<exists>k. attendance w' = fold upsert (?R (take k (p # ps))) (attendance w)" by blast
    with err show ?thesis by simp
  next
    case skip
    note ih = Cons.IH [OF skip(4), unfolded skip(2,3)]
    from ih have p: "punch w' = punch w"
      and r: "\<forall>rs. out = Inr rs \<longrightarrow> rs = results @ ?R ps \<and> attendance w' = fold upsert (?R ps) (attendance w)"
      by blast+
    from ih obtain k where k: "attendance w' = fold upsert (?R (take k ps)) (attendance w)"
      by blast
    from k skip(1) have "attendance w' = fold upsert (?R (take (Suc k) (p # ps))) (attendance w)"
      by (simp add: dayRecords_Cons)
    then have "\<exists>k. attendance w' = fold upsert (?R (take k (p # ps))) (attendance w)" by blast
    with p r skip(1) show ?thesis by (simp add: dayRecords_Cons)
  next
    case rec
    note ih = Cons.IH [OF rec(4), unfolded rec(2,3)]
    from ih have p: "punch w' = punch w"
      and r: "\<forall>rs. out = Inr rs \<longrightarrow> rs = (results @ [a]) @ ?R ps \<and>
                attendance w' = fold upsert (?R ps) (upsert a (attendance w))"
      by blast+
    from ih obtain k where k: "attendance w' = fold upsert (?R (take k ps)) (upsert a (attendance w))"
      by blast
    from k rec(1) have "attendance w' = fold upsert (?R (take (Suc k) (p # ps))) (attendance w)"
      by (simp add: dayRecords_Cons)
    then have "\<exists>k. attendance w' = fold upsert (?R (take k (p # ps))) (attendance w)" by blast
    with p r rec(1) show ?thesis by (simp add: dayRecords_Cons)
  qed
qed

lemma attendanceLoop_no_fault:
  assumes "faults w = []"
  shows "\<exists>rs w'. attendanceLoop H M d s e ps results w = (Inr rs, w')"
  using assms
proof (induction ps arbitrary: results w)
  case Nil
  then show ?case by simp
next
  case (Cons p ps)
  obtain out w' where l: "attendanceLoop H M d s e (p # ps) results w = (out, w')"
    by (cases "attendanceLoop H M d s e (p # ps) results w")
  from attendanceLoop_step [OF l] Cons.prems
  consider
    (skip) w1 where "faults w1 = []" "attendanceLoop H M d s e ps results w1 = (out, w')"
  | (rec) a w3 where "faults w3 = []" "attendanceLoop H M d s e ps (results @ [a]) w3 = (out, w')"
    by auto
  then show ?case
  proof cases
    case skip
    from Cons.IH [OF skip(1), of results] skip(2) l show ?thesis by auto
  next
    case rec
    from Cons.IH [OF rec(1), of "results @ [a]"] rec(2) l show ?thesis by auto
  qed
qed

lemma compute_outcome:
  assumes "computeAttendanceForDay H M d w = (out, w')"
  shows "punch w' = punch w"
    and "dayRange H d = Inl err \<Longrightarrow> out = Inl err \<and> attendance w' = attendance w"
    and "dayRange H d = Inr (s, e) \<Longrightarrow>
           (\<exists>k. attendance w' =
              fold upsert (dayRecords H M d s e (punch w) (take k (pinsBetween s e (punch w)))) (attendance w)) \<and>
           (\<forall>rs. out = Inr rs \<longrightarrow>
              rs = dayRecords H M d s e (punch w) (pinsBetween s e (punch w)) \<and>
              attendance w' =
                fold upsert (dayRecords H M d s e (punch w) (pinsBetween s e (punch w))) (attendance w)) \<and>
           (faults w = [] \<longrightarrow> (\<exists>rs. out = Inr rs))"
proof -
  show "dayRange H d = Inl err \<Longrightarrow> out = Inl err \<and> attendance w' = attendance w"
    using assms by (auto simp: computeAttendanceForDay_def)
  have both: "punch w' = punch w \<and> (\<forall>s e. dayRange H d = Inr (s, e) \<longrightarrow>
           (\<exists>k. attendance w' =
              fold upsert (dayRecords H M d s e (punch w) (take k (pinsBetween s e (punch w)))) (attendance w)) \<and>
           (\<forall>rs. out = Inr rs \<longrightarrow>
              rs = dayRecords H M d s e (punch w) (pinsBetween s e (punch w)) \<and>
              attendance w' =
                fold upsert (dayRecords H M d s e (punch w) (pinsBetween s e (punch w))) (attendance w)) \<and>
           (faults w = [] \<longrightarrow> (\<exists>rs. out = Inr rs)))"
  proof (cases "dayRange H d")
    case (Inl x)
    with assms show ?thesis by (auto simp: computeAttendanceForDay_def)
  next
    case (Inr se)
    obtain s e where se: "se = (s, e)" by (cases se)
    obtain r1 w1 where e1: "execute (SelectDistinctPins s e) w = (r1, w1)"
      by (cases "execute (SelectDistinctPins s e) w")
    note f1 = execute_SelectDistinctPins [OF e1]
    show ?thesis
    proof (cases r1)
      case (Inl x)
      with assms Inr se e1 have o: "out = Inl x" "w' = w1"
        by (simp_all add: computeAttendanceForDay_def)
      from f1 Inl have nf: "faults w \<noteq> []" by auto
      have "attendance w' = fold upsert (dayRecords H M d s e (punch w) (take 0 (pinsBetween s e (punch w)))) (attendance w)"
        using o f1 by (simp add: dayRecords_Nil)
      then have "\<exists>k. attendance w' = fold upsert (dayRecords H M d s e (punch w) (take k (pinsBetween s e (punch w)))) (attendance w)"
        by blast
      with o f1 nf Inr se show ?thesis by simp
    next
      case r: (Inr rows1)
      with f1(4) have rows1: "rows1 = PinRows (pinsBetween s e (punch w))" by simp
      from assms Inr se e1 r rows1
      have l: "attendanceLoop H M d s e (pinsBetween s e (punch w)) [] w1 = (out, w')"
        by (simp add: computeAttendanceForDay_def pinsOf_def)
      from attendanceLoop_outcome [OF l] f1(1,2)
      have a: "punch w' = punch w"
        "\<exists>k. attendance w' = fold upsert (dayRecords H M d s e (punch w) (take k (pinsBetween s e (punch w)))) (attendance w)"
        "\<forall>rs. out = Inr rs \<longrightarrow>
              rs = dayRecords H M d s e (punch w) (pinsBetween s e (punch w)) \<and>
              attendance w' =
                fold upsert (dayRecords H M d s e (punch w) (pinsBetween s e (punch w))) (attendance w)"
        by simp_all
      have "faults w = [] \<longrightarrow> (\<exists>rs. out = Inr rs)"
      proof
        assume "faults w = []"
        with f1(3) have "faults w1 = []" by simp
        from attendanceLoop_no_fault [OF this, of H M d s e "pinsBetween s e (punch w)" "[]"] l
        show "\<exists>rs. out = Inr rs" by auto
      qed
      with a Inr se show ?thesis by simp
    qed
  qed
  from both show "punch w' = punch w" by simp
  from both show "dayRange H d = Inr (s, e) \<Longrightarrow>
           (\<exists>k. attendance w' =
              fold upsert (dayRecords H M d s e (punch w) (take k (pinsBetween s e (punch w)))) (attendance w)) \<and>
           (\<forall>rs. out = Inr rs \<longrightarrow>
              rs = dayRecords H M d s e (punch w) (pinsBetween s e (punch w)) \<and>
              attendance w' =
                fold upsert (dayRecords H M d s e (punch w) (pinsBetween s e (punch w))) (attendance w)) \<and>
           (faults w = [] \<longrightarrow> (\<exists>rs. out = Inr rs))"
    by simp
qed

lemma overwrite_same: "sameKey (att_pin a) (att_day a) r \<Longrightarrow> overwrite a r = a"
  by (cases a, cases r) (simp add: overwrite_def sameKey_def)

lemma overwrite_other: "\<not> sameKey (att_pin a) (att_day a) r \<Longrightarrow> overwrite a r = r"
  by (simp add: overwrite_def)

lemma overwrite_key:
  "att_pin (overwrite a r) = att_pin r" "att_day (overwrite a r) = att_day r"
  by (simp_all add: overwrite_def)

lemma upsert_settles: "settledRow a (upsert a tbl)"
proof (cases "filter (sameKey (att_pin a) (att_day a)) tbl = []")
  case True
  then have "\<forall>r \<in> set tbl. \<not> sameKey (att_pin a) (att_day a) r"
    by (simp add: filter_empty_conv)
  with True show ?thesis
    by (auto simp: settledRow_def upsert_def sameKey_def)
next
  case False
  then obtain r where r: "r \<in> set tbl" "sameKey (att_pin a) (att_day a) r"
    by (auto simp: filter_empty_conv)
  have k: "sameKey (att_pin a) (att_day a) a" by (simp add: sameKey_def)
  have "a \<in> set (map (overwrite a) tbl)"
    using r overwrite_same [OF r(2)] by (metis image_eqI list.set_map)
  with k have ex: "\<exists>x \<in> set (map (overwrite a) tbl). sameKey (att_pin a) (att_day a) x"
    by blast
  have "\<forall>x \<in> set (map (overwrite a) tbl). sameKey (att_pin a) (att_day a) x \<longrightarrow> x = a"
  proof
    fix x assume "x \<in> set (map (overwrite a) tbl)"
    then obtain y where y: "y \<in> set tbl" "x = overwrite a y" by auto
    show "sameKey (att_pin a) (att_day a) x \<longrightarrow> x = a"
    proof
      assume "sameKey (att_pin a) (att_day a) x"
      with y have "sameKey (att_pin a) (att_day a) y"
        by (simp add: sameKey_def overwrite_key)
      with y show "x = a" by (simp add: overwrite_same)
    qed
  qed
  with ex False show ?thesis by (simp add: settledRow_def upsert_def)
qed

lemma upsert_settled_id: "settledRow a tbl \<Longrightarrow> upsert a tbl = tbl"
proof -
  assume s: "settledRow a tbl"
  then have ne: "filter (sameKey (att_pin a) (att_day a)) tbl \<noteq> []"
    by (auto simp: settledRow_def filter_empty_conv)
  have "map (overwrite a) tbl = map (\<lambda>r. r) tbl"
  proof (rule map_cong [OF refl])
    fix r assume "r \<in> set tbl"
    with s show "overwrite a r = r"
      by (cases "sameKey (att_pin a) (att_day a) r")
         (auto simp: settledRow_def overwrite_same overwrite_other)
  qed
  with ne show ?thesis by (simp add: upsert_def)
qed

lemma upsert_keeps_settled:
  assumes "settledRow a tbl" "(att_pin b, att_day b) \<noteq> (att_pin a, att_day a)"
  shows "settledRow a (upsert b tbl)"
proof -
  have nk: "\<not> sameKey (att_pin b) (att_day b) a" "\<not> sameKey (att_pin a) (att_day a) b"
    using assms(2) by (auto simp: sameKey_def)
  have ov: "\<And>r. sameKey (att_pin a) (att_day a) r \<Longrightarrow> overwrite b r = r"
    using assms(2) by (auto simp: overwrite_def sameKey_def)
  have ov': "\<And>r. sameKey (att_pin a) (att_day a) (overwrite b r) \<Longrightarrow> sameKey (att_pin a) (att_day a) r"
    by (simp add: sameKey_def overwrite_key)
  show ?thesis
  proof (cases "filter (sameKey (att_pin b) (att_day b)) tbl = []")
    case True
    with assms(1) nk show ?thesis by (auto simp: settledRow_def upsert_def)
  next
    case False
    from assms(1) obtain r where r: "r \<in> set tbl" "sameKey (att_pin a) (att_day a) r"
      by (auto simp: settledRow_def)
    then have "overwrite b r \<in> set (map (overwrite b) tbl)" by simp
    with ov [OF r(2)] r(2) have ex: "\<exists>x \<in> set (map (overwrite b) tbl). sameKey (att_pin a) (att_day a) x"
      by metis
    have "\<forall>x \<in> set (map (overwrite b) tbl). sameKey (att_pin a) (att_day a) x \<longrightarrow> x = a"
    proof
      fix x assume "x \<in> set (map (overwrite b) tbl)"
      then obtain y where y: "y \<in> set tbl" "x = overwrite b y" by auto
      show "sameKey (att_pin a) (att_day a) x \<longrightarrow> x = a"
      proof
        assume sx: "sameKey (att_pin a) (att_day a) x"
        with y ov' have sy: "sameKey (att_pin a) (att_day a) y" by simp
        with assms(1) y(1) have "y = a" by (auto simp: settledRow_def)
        with y(2) ov [OF sy] show "x = a" by simp
      qed
    qed
    with ex False show ?thesis by (simp add: settledRow_def upsert_def)
  qed
qed

lemma fold_keeps_settled:
  "settledRow a tbl \<Longrightarrow> (att_pin a, att_day a) \<notin> set (map (\<lambda>r. (att_pin r, att_day r)) R)
     \<Longrightarrow> settledRow a (fold upsert R tbl)"
proof (induction R arbitrary: tbl)
  case Nil
  then show ?case by simp
next
  case (Cons b R)
  from Cons.prems have "settledRow a (upsert b tbl)"
    by (intro upsert_keeps_settled) auto
  with Cons show ?case by simp
qed

lemma fold_settles:
  "distinct (map (\<lambda>r. (att_pin r, att_day r)) R) \<Longrightarrow> a \<in> set R
     \<Longrightarrow> settledRow a (fold upsert R tbl)"
proof (induction R arbitrary: tbl)
  case Nil
  then show ?case by simp
next
  case (Cons b R)
  show ?case
  proof (cases "a = b")
    case True
    have "settledRow b (fold upsert R (upsert b tbl))"
      using Cons.prems(1) by (intro fold_keeps_settled upsert_settles) simp
    with True show ?thesis by simp
  next
    case False
    with Cons show ?thesis by simp
  qed
qed

lemma fold_settled_id: "\<forall>a \<in> set R. settledRow a tbl \<Longrightarrow> fold upsert R tbl = tbl"
  by (induction R) (simp_all add: upsert_settled_id)

lemma upsert_keysUnique: "keysUnique tbl \<Longrightarrow> keysUnique (upsert a tbl)"
proof (cases "filter (sameKey (att_pin a) (att_day a)) tbl = []")
  case True
  assume u: "keysUnique tbl"
  from True have "(att_pin a, att_day a) \<notin> set (map (\<lambda>r. (att_pin r, att_day r)) tbl)"
    by (auto simp: filter_empty_conv sameKey_def)
  with u True show ?thesis by (simp add: upsert_def keysUnique_def)
next
  case False
  assume u: "keysUnique tbl"
  have "map (\<lambda>r. (att_pin r, att_day r)) (map (overwrite a) tbl) = map (\<lambda>r. (att_pin r, att_day r)) tbl"
    by (simp add: overwrite_key comp_def)
  with u have "keysUnique (map (overwrite a) tbl)" by (simp only: keysUnique_def)
  with False show ?thesis by (simp add: upsert_def)
qed

lemma fold_upsert_keysUnique: "keysUnique tbl \<Longrightarrow> keysUnique (fold upsert R tbl)"
  by (induction R arbitrary: tbl) (simp_all add: upsert_keysUnique)

lemma dayRecord_key:
  "dayRecord H M d s e tbl p = Some a \<Longrightarrow> att_pin a = p \<and> att_day a = d"
  by (auto simp: dayRecord_def attendanceData_def Let_def split: list.splits)

lemma dayRecords_keys:
  "map (\<lambda>r. (att_pin r, att_day r)) (dayRecords H M d s e tbl ps) =
     map (\<lambda>p. (p, d)) (filter (\<lambda>p. dayRecord H M d s e tbl p \<noteq> None) ps)"
  by (induction ps) (auto simp: dayRecords_Cons dayRecords_Nil dest: dayRecord_key split: option.splits)

lemma dayRecords_distinct:
  "distinct ps \<Longrightarrow> distinct (map (\<lambda>r. (att_pin r, att_day r)) (dayRecords H M d s e tbl ps))"
  by (simp add: dayRecords_keys distinct_map inj_on_def)

lemma dayRecords_take_subset:
  "set (dayRecords H M d s e tbl (take k ps)) \<subseteq> set (dayRecords H M d s e tbl ps)"
  by (auto simp: dayRecords_def List.map_filter_def dest: in_set_takeD)

lemma pinsBetween_distinct: "distinct (pinsBetween s e tbl)"
  by (simp add: pinsBetween_def)

lemma settled_call:
  assumes first: "computeAttendanceForDay H M d w = (Inr results, w1)"
    and same: "punch v = punch w" "attendance v = attendance w1"
    and call: "computeAttendanceForDay H M d v = (out, v')"
  shows "punch v' = punch w" "attendance v' = attendance w1"
    "\<forall>again. out = Inr again \<longrightarrow> again = results"
    "faults v = [] \<longrightarrow> out = Inr results"
proof -
  obtain s e where se: "dayRange H d = Inr (s, e)"
    using compute_outcome(2) [OF first] by (cases "dayRange H d") auto
  let ?R = "dayRecords H M d s e (punch w) (pinsBetween s e (punch w))"
  from compute_outcome(3) [OF first se]
  have res: "results = ?R" and tbl: "attendance w1 = fold upsert ?R (attendance w)" by simp_all
  have settled: "\<forall>a \<in> set ?R. settledRow a (attendance w1)"
    unfolding tbl
    by (intro ballI fold_settles dayRecords_distinct pinsBetween_distinct)
  from compute_outcome(1) [OF call] same show "punch v' = punch w" by simp
  from compute_outcome(3) [OF call se, unfolded same]
  obtain k where k: "attendance v' =
      fold upsert (dayRecords H M d s e (punch w) (take k (pinsBetween s e (punch w)))) (attendance w1)"
    and o: "\<forall>rs. out = Inr rs \<longrightarrow> rs = ?R" "faults v = [] \<longrightarrow> (\<exists>rs. out = Inr rs)"
    by blast
  have "\<forall>a \<in> set (dayRecords H M d s e (punch w) (take k (pinsBetween s e (punch w)))).
          settledRow a (attendance w1)"
    using settled dayRecords_take_subset by blast
  from fold_settled_id [OF this] k show "attendance v' = attendance w1" by simp
  from o res show "\<forall>again. out = Inr again \<longrightarrow> again = results" by simp
  from o res show "faults v = [] \<longrightarrow> out = Inr results" by auto
qed

lemma settled_recompute:
  assumes first: "computeAttendanceForDay H M d w = (Inr results, w1)"
    and same: "punch v = punch w" "attendance v = attendance w1"
  shows "punch (recompute H M d n v) = punch w \<and> attendance (recompute H M d n v) = attendance w1"
  using same
proof (induction n arbitrary: v)
  case 0
  then show ?case by simp
next
  case (Suc n)
  obtain out v' where c: "computeAttendanceForDay H M d v = (out, v')"
    by (cases "computeAttendanceForDay H M d v")
  note s = settled_call [OF first Suc.prems c]
  from Suc.IH [OF s(1,2)] c show ?case by simp
qed

lemma compute_keysUnique:
  "keysUnique (attendance w) \<Longrightarrow> keysUnique (attendance (snd (computeAttendanceForDay H M d w)))"
proof -
  assume u: "keysUnique (attendance w)"
  obtain out w' where c: "computeAttendanceForDay H M d w = (out, w')"
    by (cases "computeAttendanceForDay H M d w")
  show ?thesis
  proof (cases "dayRange H d")
    case (Inl err)
    from compute_outcome(2) [OF c Inl] u c show ?thesis by simp
  next
    case (Inr se)
    obtain s e where "se = (s, e)" by (cases se)
    with Inr have "dayRange H d = Inr (s, e)" by simp
    from compute_outcome(3) [OF c this] obtain k where
      "attendance w' = fold upsert (dayRecords H M d s e (punch w) (take k (pinsBetween s e (punch w)))) (attendance w)"
      by blast
    with u c show ?thesis by (simp add: fold_upsert_keysUnique)
  qed
qed

lemma compute_settles:
  assumes "computeAttendanceForDay H M d w = (Inr results, w1)"
  shows "\<forall>a \<in> set results. settledRow a (attendance w1)"
proof -
  obtain s e where se: "dayRange H d = Inr (s, e)"
    using compute_outcome(2) [OF assms] by (cases "dayRange H d") auto
  let ?R = "dayRecords H M d s e (punch w) (pinsBetween s e (punch w))"
  from compute_outcome(3) [OF assms se]
  have res: "results = ?R" and tbl: "attendance w1 = fold upsert ?R (attendance w)" by simp_all
  show ?thesis
    unfolding tbl res
    by (intro ballI fold_settles dayRecords_distinct pinsBetween_distinct)
qed

text \<open>
  Calls made one after the other. After a call of \<open>computeAttendanceForDay\<close> that
  returned, every record returned is in the attendance table, as the only content under
  its identity and day: a row that was there is overwritten, a missing one inserted. Any
  number of further calls for the same day leave the punch table and the attendance
  table as they are, every one of them that returns gives the same records, and one that
  meets no failure of the store does return. A call never makes two rows of one identity
  and day out of a table that had none.
\<close>

lemma consecutive_calls:
  assumes "computeAttendanceForDay H M d w = (Inr results, w1)"
  shows "(\<forall>a \<in> set results. settledRow a (attendance w1)) \<and>
         punch w1 = punch w \<and>
         punch (recompute H M d n w1) = punch w \<and>
         attendance (recompute H M d n w1) = attendance w1 \<and>
         (\<forall>again. fst (computeAttendanceForDay H M d (recompute H M d n w1)) = Inr again
            \<longrightarrow> again = results) \<and>
         (faults (recompute H M d n w1) = [] \<longrightarrow>
            fst (computeAttendanceForDay H M d (recompute H M d n w1)) = Inr results) \<and>
         (keysUnique (attendance w0) \<longrightarrow>
            keysUnique (attendance (snd (computeAttendanceForDay H M d w0))))"
proof -
  have p: "punch w1 = punch w" by (rule compute_outcome(1) [OF assms])
  note r = settled_recompute [OF assms p refl, of n]
  let ?v = "recompute H M d n w1"
  obtain out v' where c: "computeAttendanceForDay H M d ?v = (out, v')"
    by (cases "computeAttendanceForDay H M d ?v")
  note s = settled_call [OF assms r [THEN conjunct1] r [THEN conjunct2] c]
  have fo: "fst (computeAttendanceForDay H M d ?v) = out" by (simp only: c fst_conv)
  have k: "keysUnique (attendance w0) \<longrightarrow>
            keysUnique (attendance (snd (computeAttendanceForDay H M d w0)))"
    by (rule impI) (rule compute_keysUnique)
  show ?thesis
    unfolding fo
    by (intro conjI compute_settles [OF assms] p r [THEN conjunct1] r [THEN conjunct2] s(3) s(4) k)
qed

lemma attendanceLoop_faults:
  assumes "faults w = []" "attendanceLoop H M d s e ps results w = (out, w')"
  shows "faults w' = []"
  using assms
proof (induction ps arbitrary: results w)
  case Nil
  then show ?case by simp
next
  case (Cons p ps)
  from attendanceLoop_step [OF Cons.prems(2)] Cons.prems(1)
  consider
    (skip) w1 where "faults w1 = []" "attendanceLoop H M d s e ps results w1 = (out, w')"
  | (rec) a w3 where "faults w3 = []" "attendanceLoop H M d s e ps (results @ [a]) w3 = (out, w')"
    by auto
  then show ?case
  proof cases
    case skip
    from Cons.IH [OF skip] show ?thesis .
  next
    case rec
    from Cons.IH [OF rec] show ?thesis .
  qed
qed

lemma compute_faults:
  assumes "faults w = []"
  shows "faults (snd (computeAttendanceForDay H M d w)) = []"
proof (cases "dayRange H d")
  case (Inl err)
  with assms show ?thesis by (simp add: computeAttendanceForDay_def)
next
  case (Inr se)
  obtain s e where se: "se = (s, e)" by (cases se)
  obtain r1 w1 where e1: "execute (SelectDistinctPins s e) w = (r1, w1)"
    by (cases "execute (SelectDistinctPins s e) w")
  note f1 = execute_SelectDistinctPins [OF e1]
  from f1(3,5) assms have r1: "r1 = Inr (PinRows (pinsBetween s e (punch w)))" and fw: "faults w1 = []"
    by simp_all
  obtain out w' where l: "attendanceLoop H M d s e (pinsBetween s e (punch w)) [] w1 = (out, w')"
    by (cases "attendanceLoop H M d s e (pinsBetween s e (punch w)) [] w1")
  from attendanceLoop_faults [OF fw l] have "faults w' = []" .
  with Inr se e1 r1 l show ?thesis
    by (simp add: computeAttendanceForDay_def pinsOf_def)
qed

lemma recompute_faults: "faults w = [] \<Longrightarrow> faults (recompute H M d n w) = []"
  by (induction n arbitrary: w) (simp_all add: compute_faults)

lemma punchedWorld_day:
  "fst (computeAttendanceForDay (fixedZone 0) 360 ''2024-03-05'' punchedWorld) = Inr punchedDay"
  by code_simp

lemma consecutive_calls_example:
  "fst (computeAttendanceForDay (fixedZone 0) 360 ''2024-03-05'' punchedWorld) = Inr punchedDay \<and>
   (\<forall>a \<in> set punchedDay. settledRow a
      (attendance (snd (computeAttendanceForDay (fixedZone 0) 360 ''2024-03-05'' punchedWorld)))) \<and>
   fst (computeAttendanceForDay (fixedZone 0) 360 ''2024-03-05''
          (recompute (fixedZone 0) 360 ''2024-03-05'' 3
             (snd (computeAttendanceForDay (fixedZone 0) 360 ''2024-03-05'' punchedWorld))))
     = Inr punchedDay \<and>
   attendance (recompute (fixedZone 0) 360 ''2024-03-05'' 3
             (snd (computeAttendanceForDay (fixedZone 0) 360 ''2024-03-05'' punchedWorld)))
     = attendance (snd (computeAttendanceForDay (fixedZone 0) 360 ''2024-03-05'' punchedWorld)) \<and>
   keysUnique (attendance (snd (computeAttendanceForDay (fixedZone 0) 360 ''2024-03-05'' punchedWorld)))"
proof -
  let ?c = "computeAttendanceForDay (fixedZone 0) 360 ''2024-03-05'' punchedWorld"
  note f = punchedWorld_day
  have c: "?c = (Inr punchedDay, snd ?c)" using f by (metis prod.collapse)
  have u: "keysUnique (attendance punchedWorld)"
    by (simp add: punchedWorld_def emptyWorld_def keysUnique_def)
  have "faults punchedWorld = []" by (simp add: punchedWorld_def emptyWorld_def)
  then have "faults (snd ?c) = []" by (rule compute_faults)
  then have fr: "faults (recompute (fixedZone 0) 360 ''2024-03-05'' 3 (snd ?c)) = []"
    by (rule recompute_faults)
  from consecutive_calls [OF c, of 3 punchedWorld] u fr f show ?thesis by simp
qed

lemma sorted_hd_Min: "sorted zs \<Longrightarrow> zs \<noteq> [] \<Longrightarrow> hd zs = Min (set zs)"
  by (cases zs) (auto intro!: Min_eqI [symmetric])

lemma sorted_le_last: "sorted zs \<Longrightarrow> z \<in> set zs \<Longrightarrow> z \<le> last zs"
  by (induction zs) auto

lemma sorted_last_Max: "sorted zs \<Longrightarrow> zs \<noteq> [] \<Longrightarrow> last zs = Max (set zs)"
  by (rule Max_eqI [symmetric]) (auto intro: sorted_le_last)

lemma punchesFor_set:
  "set (punchesFor p s e tbl) = {x \<in> set tbl. pin x = p \<and> tsBetween s e x}"
  by (auto simp: punchesFor_def)

lemma punchesFor_first_last:
  assumes "punchesFor p s e tbl = p0 # rest"
  shows "ts p0 = Min (ts ` {x \<in> set tbl. pin x = p \<and> tsBetween s e x})"
    and "ts (last (p0 # rest)) = Max (ts ` {x \<in> set tbl. pin x = p \<and> tsBetween s e x})"
proof -
  let ?ys = "punchesFor p s e tbl"
  have so: "sorted (map ts ?ys)" by (simp add: punchesFor_def)
  have ne: "map ts ?ys \<noteq> []" using assms by simp
  have st: "set (map ts ?ys) = ts ` {x \<in> set tbl. pin x = p \<and> tsBetween s e x}"
    by (simp add: punchesFor_set)
  from sorted_hd_Min [OF so ne] assms st
  show "ts p0 = Min (ts ` {x \<in> set tbl. pin x = p \<and> tsBetween s e x})" by simp
  have "last (map ts ?ys) = ts (last ?ys)" using assms by (simp add: last_map)
  with sorted_last_Max [OF so ne] assms st
  show "ts (last (p0 # rest)) = Max (ts ` {x \<in> set tbl. pin x = p \<and> tsBetween s e x})" by simp
qed

lemma dayRecords_filter_pin:
  assumes "distinct ps" "p \<in> set ps" "dayRecord H M d s e tbl p = Some a"
  shows "filter (\<lambda>a. att_pin a = p) (dayRecords H M d s e tbl ps) = [a]"
  using assms
proof (induction ps)
  case Nil
  then show ?case by simp
next
  case (Cons q ps)
  show ?case
  proof (cases "q = p")
    case True
    with Cons.prems have notin: "p \<notin> set ps" by simp
    have "filter (\<lambda>a. att_pin a = p) (dayRecords H M d s e tbl ps) = []"
    proof -
      have "\<forall>b \<in> set (dayRecords H M d s e tbl ps). att_pin b \<in> set ps"
        by (auto simp: dayRecords_def List.map_filter_def dest: dayRecord_key)
      with notin show ?thesis by (auto simp: filter_empty_conv)
    qed
    with True Cons.prems(3) dayRecord_key [OF Cons.prems(3)] show ?thesis
      by (simp add: dayRecords_Cons)
  next
    case False
    with Cons have ih: "filter (\<lambda>a. att_pin a = p) (dayRecords H M d s e tbl ps) = [a]" by simp
    show ?thesis
    proof (cases "dayRecord H M d s e tbl q")
      case None
      with ih show ?thesis by (simp add: dayRecords_Cons)
    next
      case (Some b)
      with dayRecord_key [OF Some] False ih show ?thesis by (simp add: dayRecords_Cons)
    qed
  qed
qed

lemma classify_eq:
  "classify M dm =
     (case dm of None \<Rightarrow> ''ABSENT''
      | Some m \<Rightarrow> if M \<le> m then ''PRESENT'' else if 0 < m then ''SHORT'' else ''ABSENT'')"
  by (simp add: classify_def)

text \<open>
Claim C3. When \<open>computeAttendanceForDay\<close> returns, an identity with a punch in the range
  of the day has exactly one record in the result: its first and last timestamps are the
  least and the greatest of its punches in the range, its minutes are the difference of
  the two instants in milliseconds divided by 60000 and rounded down, and its status is
  \<open>PRESENT\<close> from \<open>MINUTES_FOR_PRESENT\<close> minutes on, else \<open>SHORT\<close> for more than 0, else
  \<open>ABSENT\<close>. When the two timestamps are canonical instants (what the strict parser
  stores) the minutes are defined and not negative, so \<open>ABSENT\<close> is the case of 0
  minutes. With one timestamp only the minutes are 0, which is \<open>ABSENT\<close> for a
  positive threshold.
\<close>

theorem attendance_of_identity:
  assumes "computeAttendanceForDay H M d w = (Inr results, w')"
    and "dayRange H d = Inr (startDt, endDt)"
    and "r \<in> set (punch w)" and "tsBetween startDt endDt r"
  shows "\<exists>a. filter (\<lambda>a. att_pin a = pin r) results = [a] \<and> att_day a = d \<and>
           first_ts a = Min (ts ` {x \<in> set (punch w). pin x = pin r \<and> tsBetween startDt endDt x}) \<and>
           last_ts a = Max (ts ` {x \<in> set (punch w). pin x = pin r \<and> tsBetween startDt endDt x}) \<and>
           duration_minutes a = minutesBetween (newDate H (first_ts a)) (newDate H (last_ts a)) \<and>
           (\<forall>f l. newDate H (first_ts a) = Some f \<and> newDate H (last_ts a) = Some l \<longrightarrow>
                  duration_minutes a = Some ((l - f) div 60000)) \<and>
           (canonicalInstant (first_ts a) \<and> canonicalInstant (last_ts a) \<longrightarrow>
              duration_minutes a = Some ((instantOf (last_ts a) - instantOf (first_ts a)) div 60000) \<and>
              0 \<le> (instantOf (last_ts a) - instantOf (first_ts a)) div 60000) \<and>
           att_status a =
             (case duration_minutes a of None \<Rightarrow> ''ABSENT''
              | Some m \<Rightarrow> if M \<le> m then ''PRESENT'' else if 0 < m then ''SHORT'' else ''ABSENT'') \<and>
           ((\<forall>x \<in> set (punch w). pin x = pin r \<and> tsBetween startDt endDt x \<longrightarrow> ts x = ts r) \<longrightarrow>
              first_ts a = ts r \<and> last_ts a = ts r \<and>
              (newDate H (ts r) \<noteq> None \<longrightarrow> duration_minutes a = Some 0 \<and>
                 att_status a = (if M \<le> 0 then ''PRESENT'' else ''ABSENT'')))"
proof -
  let ?S = "{x \<in> set (punch w). pin x = pin r \<and> tsBetween startDt endDt x}"
  from compute_outcome(3) [OF assms(1,2)]
  have res: "results = dayRecords H M d startDt endDt (punch w) (pinsBetween startDt endDt (punch w))"
    by simp
  have pin_in: "pin r \<in> set (pinsBetween startDt endDt (punch w))"
    using assms(3,4) by (auto simp: pinsBetween_def)
  have rS: "r \<in> ?S" using assms(3,4) by simp
  then have "punchesFor (pin r) startDt endDt (punch w) \<noteq> []"
    using punchesFor_set [of "pin r" startDt endDt "punch w"] by auto
  then obtain p0 rest where pf: "punchesFor (pin r) startDt endDt (punch w) = p0 # rest"
    by (cases "punchesFor (pin r) startDt endDt (punch w)") auto
  define pn where "pn = last (p0 # rest)"
  define a where "a = attendanceData H M (pin r) d p0 pn"
  have dr: "dayRecord H M d startDt endDt (punch w) (pin r) = Some a"
    by (simp only: dayRecord_def pf list.case a_def pn_def)
  have one: "filter (\<lambda>a. att_pin a = pin r) results = [a]"
    unfolding res by (rule dayRecords_filter_pin [OF pinsBetween_distinct pin_in dr])
  note fl = punchesFor_first_last [OF pf, folded pn_def]
  have fields: "att_day a = d" "first_ts a = ts p0" "last_ts a = ts pn"
    "duration_minutes a = minutesBetween (newDate H (ts p0)) (newDate H (ts pn))"
    "att_status a = classify M (duration_minutes a)"
    by (simp_all add: a_def attendanceData_def Let_def)
  have dur: "\<forall>f l. newDate H (first_ts a) = Some f \<and> newDate H (last_ts a) = Some l \<longrightarrow>
                  duration_minutes a = Some ((l - f) div 60000)"
    by (simp add: fields minutesBetween_def)
  have single: "(\<forall>x \<in> set (punch w). pin x = pin r \<and> tsBetween startDt endDt x \<longrightarrow> ts x = ts r) \<longrightarrow>
              first_ts a = ts r \<and> last_ts a = ts r \<and>
              (newDate H (ts r) \<noteq> None \<longrightarrow> duration_minutes a = Some 0 \<and>
                 att_status a = (if M \<le> 0 then ''PRESENT'' else ''ABSENT''))"
  proof
    assume all: "\<forall>x \<in> set (punch w). pin x = pin r \<and> tsBetween startDt endDt x \<longrightarrow> ts x = ts r"
    have "p0 \<in> ?S" "pn \<in> ?S"
      using punchesFor_set [of "pin r" startDt endDt "punch w"] pf pn_def
      by (metis list.set_intros(1), metis last_in_set list.distinct(1))
    with all have t: "ts p0 = ts r" "ts pn = ts r" by auto
    show "first_ts a = ts r \<and> last_ts a = ts r \<and>
              (newDate H (ts r) \<noteq> None \<longrightarrow> duration_minutes a = Some 0 \<and>
                 att_status a = (if M \<le> 0 then ''PRESENT'' else ''ABSENT''))"
      by (auto simp: fields t minutesBetween_def classify_def)
  qed
  have "ts r \<in> ts ` ?S" using rS by (rule imageI)
  then have "Min (ts ` ?S) \<le> ts r" "ts r \<le> Max (ts ` ?S)" by simp_all
  then have ord: "ts p0 \<le> ts pn" unfolding fl by (rule order_trans)
  have canon: "canonicalInstant (first_ts a) \<and> canonicalInstant (last_ts a) \<longrightarrow>
      duration_minutes a = Some ((instantOf (last_ts a) - instantOf (first_ts a)) div 60000) \<and>
      0 \<le> (instantOf (last_ts a) - instantOf (first_ts a)) div 60000"
  proof
    assume "canonicalInstant (first_ts a) \<and> canonicalInstant (last_ts a)"
    then have c: "canonicalInstant (ts p0)" "canonicalInstant (ts pn)" by (simp_all add: fields)
    from minutes_nonneg [OF c ord]
    show "duration_minutes a = Some ((instantOf (last_ts a) - instantOf (first_ts a)) div 60000) \<and>
      0 \<le> (instantOf (last_ts a) - instantOf (first_ts a)) div 60000"
      by (simp add: fields)
  qed
  show ?thesis
    apply (rule exI [of _ a])
    apply (intro conjI one fields(1) dur single canon)
       apply (simp only: fields fl)
      apply (simp only: fields fl)
     apply (simp only: fields)
    apply (simp only: fields(5) classify_eq)
    done
qed


theorem attendance_of_identity_witness:
  "fst (computeAttendanceForDay (fixedZone 0) 360 ''2024-03-05'' punchedWorld) = Inr punchedDay \<and>
   dayRange (fixedZone 0) ''2024-03-05'' =
     Inr (''2024-03-05T00:00:00.000Z'', ''2024-03-05T23:59:59.999Z'') \<and>
   punchAt ''A1'' ''2024-03-05T15:00:00.000Z'' \<in> set (punch punchedWorld) \<and>
   tsBetween ''2024-03-05T00:00:00.000Z'' ''2024-03-05T23:59:59.999Z''
     (punchAt ''A1'' ''2024-03-05T15:00:00.000Z'') \<and>
   (\<exists>a. filter (\<lambda>a. att_pin a = ''A1'') punchedDay = [a] \<and> att_day a = ''2024-03-05'' \<and>
        first_ts a = ''2024-03-05T09:00:00.000Z'' \<and> last_ts a = ''2024-03-05T15:00:00.000Z'' \<and>
        duration_minutes a = Some 360 \<and> att_status a = ''PRESENT'')"
proof -
  let ?c = "computeAttendanceForDay (fixedZone 0) 360 ''2024-03-05'' punchedWorld"
  let ?r = "punchAt ''A1'' ''2024-03-05T15:00:00.000Z''"
  have c: "?c = (Inr punchedDay, snd ?c)" using punchedWorld_day by (metis prod.collapse)
  have m: "?r \<in> set (punch punchedWorld)" by (simp add: punchedWorld_def emptyWorld_def)
  have b: "tsBetween ''2024-03-05T00:00:00.000Z'' ''2024-03-05T23:59:59.999Z'' ?r"
    by (simp add: tsBetween_def punchAt_def)
  have p: "pin ?r = ''A1''" by (simp add: punchAt_def)
  from attendance_of_identity [OF c dayRange_utc_host m b, unfolded p]
  obtain a where a: "filter (\<lambda>a. att_pin a = ''A1'') punchedDay = [a]" by blast
  have "filter (\<lambda>a. att_pin a = ''A1'') punchedDay = [hd punchedDay]"
    by (simp add: punchedDay_def)
  with a have "a = hd punchedDay" by simp
  then have "att_day a = ''2024-03-05'' \<and>
        first_ts a = ''2024-03-05T09:00:00.000Z'' \<and> last_ts a = ''2024-03-05T15:00:00.000Z'' \<and>
        duration_minutes a = Some 360 \<and> att_status a = ''PRESENT''"
    by (simp add: punchedDay_def)
  with a punchedWorld_day dayRange_utc_host m b show ?thesis by blast
qed

text \<open>
Claim C2 against the code. \<open>setHours\<close> works on the local day, so the range queried
  follows the zone of the host: for the day 2024-03-05 it starts at 18:30 UTC of the day
  before on a host at UTC+05:30 and at 05:00 UTC of the day before on a host at UTC-05:00.
  On the first host a punch of 2024-03-04 is queried, and one of 2024-03-05 is not.
\<close>

theorem day_range_follows_host_zone:
  "dayRange (fixedZone 330) ''2024-03-05'' =
     Inr (''2024-03-04T18:30:00.000Z'', ''2024-03-05T18:29:59.999Z'') \<and>
   dayRange (fixedZone (- 300)) ''2024-03-05'' =
     Inr (''2024-03-04T05:00:00.000Z'', ''2024-03-05T04:59:59.999Z'') \<and>
   tsBetween ''2024-03-04T18:30:00.000Z'' ''2024-03-05T18:29:59.999Z''
     (punchAt ''A1'' ''2024-03-04T20:00:00.000Z'') \<and>
   \<not> tsBetween ''2024-03-04T18:30:00.000Z'' ''2024-03-05T18:29:59.999Z''
     (punchAt ''A1'' ''2024-03-05T19:30:00.000Z'')"
proof -
  have a: "dayRange (fixedZone 330) ''2024-03-05'' =
     Inr (''2024-03-04T18:30:00.000Z'', ''2024-03-05T18:29:59.999Z'')"
    by code_simp
  have b: "dayRange (fixedZone (- 300)) ''2024-03-05'' =
     Inr (''2024-03-04T05:00:00.000Z'', ''2024-03-05T04:59:59.999Z'')"
    by code_simp
  show ?thesis unfolding a b by (simp add: tsBetween_def punchAt_def)
qed

section \<open>Calls that overlap\<close>

text \<open>A call that runs alone is \<open>computeAttendanceForDay\<close> as defined above.\<close>

lemma attendanceTask_run:
  "runTask (attendanceTask H M d s e ps results) w = attendanceLoop H M d s e ps results w"
proof (induction ps arbitrary: results w)
  case Nil
  show ?case by simp
next
  case (Cons p ps)
  show ?case
    by (simp add: Cons.IH Let_def split: prod.splits sum.splits list.splits)
qed

lemma computeAttendanceTask_run:
  "runTask (computeAttendanceTask H M d) w = computeAttendanceForDay H M d w"
  by (simp add: computeAttendanceTask_def computeAttendanceForDay_def attendanceTask_run
      split: prod.splits sum.splits)

lemma overlappingCalls_outcome:
  "(case overlappingCalls of
      ((a, b), w) \<Rightarrow> (returned a, returned b, attendance w, issued w)) =
   (Some (Inr [twoPunchDay]), Some (Inr [twoPunchDay]), [twoPunchDay, twoPunchDay],
    [SelectDistinctPins ''2024-03-05T00:00:00.000Z'' ''2024-03-05T23:59:59.999Z'',
     SelectDistinctPins ''2024-03-05T00:00:00.000Z'' ''2024-03-05T23:59:59.999Z'',
     SelectPunches ''A1'' ''2024-03-05T00:00:00.000Z'' ''2024-03-05T23:59:59.999Z'',
     SelectPunches ''A1'' ''2024-03-05T00:00:00.000Z'' ''2024-03-05T23:59:59.999Z'',
     SelectAttendance ''A1'' ''2024-03-05'', SelectAttendance ''A1'' ''2024-03-05'',
     InsertAttendance twoPunchDay, InsertAttendance twoPunchDay])"
  by code_simp

lemma consecutiveCalls_outcome:
  "attendance (snd (computeAttendanceForDay (fixedZone 0) 360 ''2024-03-05''
      (snd (computeAttendanceForDay (fixedZone 0) 360 ''2024-03-05'' twoPunchWorld)))) = [twoPunchDay] \<and>
   issued (snd (computeAttendanceForDay (fixedZone 0) 360 ''2024-03-05''
      (snd (computeAttendanceForDay (fixedZone 0) 360 ''2024-03-05'' twoPunchWorld)))) =
    [SelectDistinctPins ''2024-03-05T00:00:00.000Z'' ''2024-03-05T23:59:59.999Z'',
     SelectPunches ''A1'' ''2024-03-05T00:00:00.000Z'' ''2024-03-05T23:59:59.999Z'',
     SelectAttendance ''A1'' ''2024-03-05'', InsertAttendance twoPunchDay,
     SelectDistinctPins ''2024-03-05T00:00:00.000Z'' ''2024-03-05T23:59:59.999Z'',
     SelectPunches ''A1'' ''2024-03-05T00:00:00.000Z'' ''2024-03-05T23:59:59.999Z'',
     SelectAttendance ''A1'' ''2024-03-05'', UpdateAttendance twoPunchDay]"
  by code_simp

text \<open>
Claim C4 against the code. Two calls of \<open>computeAttendanceForDay\<close> for one day whose
  statements alternate both find no attendance row of the identity and the day, and both
  insert one: both return the record of the day, and the table holds it twice, two rows
  under one identity and day. The same two calls one after the other leave one row. The
  table has no uniqueness constraint on identity and day that would refuse the second
  insert.
\<close>

theorem attendance_upsert_race:
  "returned (fst (fst overlappingCalls)) = Some (Inr [twoPunchDay]) \<and>
   returned (snd (fst overlappingCalls)) = Some (Inr [twoPunchDay]) \<and>
   attendance (snd overlappingCalls) = [twoPunchDay, twoPunchDay] \<and>
   \<not> keysUnique (attendance (snd overlappingCalls)) \<and>
   issued (snd overlappingCalls) =
    [SelectDistinctPins ''2024-03-05T00:00:00.000Z'' ''2024-03-05T23:59:59.999Z'',
     SelectDistinctPins ''2024-03-05T00:00:00.000Z'' ''2024-03-05T23:59:59.999Z'',
     SelectPunches ''A1'' ''2024-03-05T00:00:00.000Z'' ''2024-03-05T23:59:59.999Z'',
     SelectPunches ''A1'' ''2024-03-05T00:00:00.000Z'' ''2024-03-05T23:59:59.999Z'',
     SelectAttendance ''A1'' ''2024-03-05'', SelectAttendance ''A1'' ''2024-03-05'',
     InsertAttendance twoPunchDay, InsertAttendance twoPunchDay] \<and>
   attendance (snd (computeAttendanceForDay (fixedZone 0) 360 ''2024-03-05''
      (snd (computeAttendanceForDay (fixedZone 0) 360 ''2024-03-05'' twoPunchWorld)))) = [twoPunchDay]"
proof -
  obtain a b w where o: "overlappingCalls = ((a, b), w)"
    by (metis prod.collapse)
  from overlappingCalls_outcome [unfolded o]
  have r: "returned a = Some (Inr [twoPunchDay])" "returned b = Some (Inr [twoPunchDay])"
    "attendance w = [twoPunchDay, twoPunchDay]"
    "issued w =
    [SelectDistinctPins ''2024-03-05T00:00:00.000Z'' ''2024-03-05T23:59:59.999Z'',
     SelectDistinctPins ''2024-03-05T00:00:00.000Z'' ''2024-03-05T23:59:59.999Z'',
     SelectPunches ''A1'' ''2024-03-05T00:00:00.000Z'' ''2024-03-05T23:59:59.999Z'',
     SelectPunches ''A1'' ''2024-03-05T00:00:00.000Z'' ''2024-03-05T23:59:59.999Z'',
     SelectAttendance ''A1'' ''2024-03-05'', SelectAttendance ''A1'' ''2024-03-05'',
     InsertAttendance twoPunchDay, InsertAttendance twoPunchDay]"
    by simp_all
  have k: "\<not> keysUnique [twoPunchDay, twoPunchDay]" by (simp add: keysUnique_def)
  show ?thesis
    unfolding o fst_conv snd_conv r
    by (intro conjI refl k consecutiveCalls_outcome [THEN conjunct1])
qed

end
